theory Spec2Isabelle
  imports Complex_Main "HOL-Library.AList"
begin

section \<open>Floating-point numbers (float64)\<close>

text \<open>
  Go's \<^verbatim>\<open>float64\<close> is the IEEE 754 binary64 format. A value is a number, \<^verbatim>\<open>math.Inf(1)\<close>,
  \<^verbatim>\<open>math.Inf(-1)\<close> or a NaN. A number is carried as the real it denotes (the two zeros are
  one value: the programs only add and compare); the numbers a \<^verbatim>\<open>float64\<close> can hold are
  the reals \<^verbatim>\<open>m * 2^e\<close> for integers \<^verbatim>\<open>|m| < 2^53\<close> and \<^verbatim>\<open>-1074 <= e <= 971\<close>. The type
  admits every real as a number, so a statement about every weight covers every
  \<^verbatim>\<open>float64\<close> weight; what an addition returns is always a number a \<^verbatim>\<open>float64\<close> can hold
  (lemma \<open>fadd_representable\<close>).
\<close>

datatype float64 = Fin real | PInf | NInf | NaN

definition is_float64 :: "real \<Rightarrow> bool" where
  "is_float64 x \<longleftrightarrow>
     (\<exists>m e :: int. \<bar>m\<bar> < 2 ^ 53 \<and> - 1074 \<le> e \<and> e \<le> 971 \<and> x = of_int m * 2 powi e)"

definition representable :: "float64 \<Rightarrow> bool" where
  "representable a = (case a of Fin x \<Rightarrow> is_float64 x | _ \<Rightarrow> True)"

text \<open>
  Rounding to nearest, ties to even, the mode Go computes in. A real \<open>x\<close> with
  \<^verbatim>\<open>2^k <= |x| < 2^(k+1)\<close> is rounded to a multiple of \<^verbatim>\<open>2^(k-52)\<close>, or of \<^verbatim>\<open>2^-1074\<close> in
  the subnormal range; from \<^verbatim>\<open>2^1024 - 2^970\<close> on, half a step above the largest number,
  the result is an infinity.
\<close>

definition round_half_even :: "real \<Rightarrow> int" where
  "round_half_even q =
     (let f = \<lfloor>q\<rfloor>
      in if q - of_int f < 1 / 2 then f
         else if 1 / 2 < q - of_int f then f + 1
         else if even f then f else f + 1)"

definition exponent :: "real \<Rightarrow> int" where
  "exponent x = max (- 1074) (\<lfloor>log 2 \<bar>x\<bar>\<rfloor> - 52)"

definition round_to :: "real \<Rightarrow> real" where
  "round_to x =
     (if x = 0 then 0
      else of_int (round_half_even (x / 2 powi exponent x)) * 2 powi exponent x)"

definition overflow_threshold :: real where
  "overflow_threshold = 2 ^ 1024 - 2 ^ 970"

definition rnd :: "real \<Rightarrow> float64" where
  "rnd x =
     (if overflow_threshold \<le> x then PInf
      else if x \<le> - overflow_threshold then NInf
      else Fin (round_to x))"

text \<open>
  \<open>fadd\<close> is Go's \<^verbatim>\<open>+\<close> on \<^verbatim>\<open>float64\<close>: the exact sum, rounded; a NaN operand or the sum of
  opposite infinities gives NaN; otherwise an infinite operand gives that infinity.
\<close>

fun fadd :: "float64 \<Rightarrow> float64 \<Rightarrow> float64" where
  "fadd (Fin a) (Fin b) = rnd (a + b)"
| "fadd NaN y = NaN"
| "fadd x NaN = NaN"
| "fadd PInf NInf = NaN"
| "fadd NInf PInf = NaN"
| "fadd PInf y = PInf"
| "fadd x PInf = PInf"
| "fadd NInf y = NInf"
| "fadd x NInf = NInf"

text \<open>
  \<open>x < y\<close> is Go's \<^verbatim>\<open>x < y\<close>: false whenever an operand is NaN. \<open>x \<le> y\<close> is Go's \<^verbatim>\<open>x <= y\<close>
  except that \<open>NaN \<le> NaN\<close> holds, which makes \<open>\<le>\<close> a partial order; so \<open>0 \<le> w\<close> says that
  \<open>w\<close> is a non-negative number or \<^verbatim>\<open>math.Inf(1)\<close>. The constant \<open>0\<close> is \<^verbatim>\<open>0.0\<close>. An
  equation between two \<^verbatim>\<open>float64\<close> says that they are the same value, so a stored NaN is
  equal to itself; the programs never apply \<^verbatim>\<open>==\<close> to a \<^verbatim>\<open>float64\<close>.

  \<open>x + y\<close> is the sum without the rounding step. It is Go's sum whenever the exact
  sum of two numbers is a number a \<^verbatim>\<open>float64\<close> can hold. The breadth-first search adds
  \<^verbatim>\<open>1.0\<close> to a hop count, where that is the case for every count below \<^verbatim>\<open>2^53\<close> (lemma
  \<open>hop_count_exact\<close> below), and it is written with \<open>+\<close>; Dijkstra's algorithm adds
  arbitrary weights and is written with \<open>fadd\<close>.
\<close>

instantiation float64 :: "{zero, plus, order}"
begin

definition zero_float64 :: float64 where
  "zero_float64 = Fin 0"

fun plus_float64 :: "float64 \<Rightarrow> float64 \<Rightarrow> float64" where
  "plus_float64 (Fin a) (Fin b) = Fin (a + b)"
| "plus_float64 NaN y = NaN"
| "plus_float64 x NaN = NaN"
| "plus_float64 PInf NInf = NaN"
| "plus_float64 NInf PInf = NaN"
| "plus_float64 PInf y = PInf"
| "plus_float64 x PInf = PInf"
| "plus_float64 NInf y = NInf"
| "plus_float64 x NInf = NInf"

fun less_eq_float64 :: "float64 \<Rightarrow> float64 \<Rightarrow> bool" where
  "less_eq_float64 (Fin a) (Fin b) = (a \<le> b)"
| "less_eq_float64 NaN y = (y = NaN)"
| "less_eq_float64 x NaN = False"
| "less_eq_float64 NInf y = True"
| "less_eq_float64 x PInf = True"
| "less_eq_float64 x y = False"

fun less_float64 :: "float64 \<Rightarrow> float64 \<Rightarrow> bool" where
  "less_float64 (Fin a) (Fin b) = (a < b)"
| "less_float64 NaN y = False"
| "less_float64 x NaN = False"
| "less_float64 NInf NInf = False"
| "less_float64 NInf y = True"
| "less_float64 PInf y = False"
| "less_float64 (Fin a) PInf = True"
| "less_float64 (Fin a) NInf = False"

instance
proof
  fix x y z :: float64
  show "(x < y) = (x \<le> y \<and> \<not> y \<le> x)"
    by (cases x; cases y) auto
  show "x \<le> x"
    by (cases x) auto
  show "x \<le> y \<Longrightarrow> y \<le> z \<Longrightarrow> x \<le> z"
    by (cases x; cases y; cases z) auto
  show "x \<le> y \<Longrightarrow> y \<le> x \<Longrightarrow> x = y"
    by (cases x; cases y) auto
qed

end

subsection \<open>Rounding gives the nearest number\<close>

lemma round_half_even_floor:
  "\<bar>q - of_int (round_half_even q)\<bar> \<le> q - of_int \<lfloor>q\<rfloor>"
  "\<bar>q - of_int (round_half_even q)\<bar> \<le> of_int \<lfloor>q\<rfloor> + 1 - q"
proof -
  have "of_int \<lfloor>q\<rfloor> \<le> q" "q < of_int \<lfloor>q\<rfloor> + 1"
    by linarith+
  then show "\<bar>q - of_int (round_half_even q)\<bar> \<le> q - of_int \<lfloor>q\<rfloor>"
    "\<bar>q - of_int (round_half_even q)\<bar> \<le> of_int \<lfloor>q\<rfloor> + 1 - q"
    by (auto simp: round_half_even_def Let_def)
qed

lemma round_half_even_nearest:
  "\<bar>q - of_int (round_half_even q)\<bar> \<le> \<bar>q - of_int j\<bar>"
proof (cases "j \<le> \<lfloor>q\<rfloor>")
  case True
  then have "real_of_int j \<le> of_int \<lfloor>q\<rfloor>"
    by simp
  moreover have "of_int \<lfloor>q\<rfloor> \<le> q"
    by linarith
  ultimately show ?thesis
    using round_half_even_floor(1) [of q] by linarith
next
  case False
  then have "\<lfloor>q\<rfloor> + 1 \<le> j"
    by simp
  then have "real_of_int (\<lfloor>q\<rfloor> + 1) \<le> of_int j"
    by (simp only: of_int_le_iff)
  moreover have "q < of_int \<lfloor>q\<rfloor> + 1"
    by linarith
  ultimately show ?thesis
    using round_half_even_floor(2) [of q] by simp
qed

lemma round_half_even_half:
  "\<bar>q - of_int (round_half_even q)\<bar> \<le> 1 / 2"
  using round_half_even_floor [of q] by linarith

lemma two_powi_floor_log:
  assumes "0 < x"
  shows "2 powi \<lfloor>log 2 x\<rfloor> \<le> x" and "x < 2 powi (\<lfloor>log 2 x\<rfloor> + 1)"
proof -
  have "2 powr (of_int \<lfloor>log 2 x\<rfloor>) \<le> x \<and> x < 2 powr (of_int \<lfloor>log 2 x\<rfloor> + 1)"
    using floor_log_eq_powr_iff [of x 2 "\<lfloor>log 2 x\<rfloor>"] assms by simp
  moreover have "(2::real) powr (of_int \<lfloor>log 2 x\<rfloor>) = 2 powi \<lfloor>log 2 x\<rfloor>"
    by (rule powr_real_of_int') simp_all
  moreover have "(2::real) powr (of_int \<lfloor>log 2 x\<rfloor> + 1) = 2 powi (\<lfloor>log 2 x\<rfloor> + 1)"
    using powr_real_of_int' [of 2 "\<lfloor>log 2 x\<rfloor> + 1"] by simp
  ultimately show "2 powi \<lfloor>log 2 x\<rfloor> \<le> x" and "x < 2 powi (\<lfloor>log 2 x\<rfloor> + 1)"
    by simp_all
qed

lemma two_powi_mono: "a \<le> b \<Longrightarrow> (2::real) powi a \<le> 2 powi b"
  by (rule power_int_increasing) simp_all

lemma two_powi_strict_mono: "a < b \<Longrightarrow> (2::real) powi a < 2 powi b"
  by (rule power_int_strict_increasing) simp_all

lemma two_powi_add: "(2::real) powi (a + b) = 2 powi a * 2 powi b"
  by (rule power_int_add) simp

lemma two_powi_int:
  assumes "0 \<le> a"
  shows "(2::real) powi a = of_int (2 ^ nat a)"
  using assms by (simp add: power_int_def)

lemma exponent_lower: "- 1074 \<le> exponent x"
  by (simp add: exponent_def)

lemma exponent_binade:
  assumes "x \<noteq> 0" and "- 1074 < exponent x"
  shows "2 powi (exponent x + 52) \<le> \<bar>x\<bar>"
proof -
  have "exponent x = \<lfloor>log 2 \<bar>x\<bar>\<rfloor> - 52"
    using assms(2) by (simp add: exponent_def max_def split: if_splits)
  then have "exponent x + 52 = \<lfloor>log 2 \<bar>x\<bar>\<rfloor>"
    by simp
  then show ?thesis
    using two_powi_floor_log(1) [of "\<bar>x\<bar>"] assms(1) by simp
qed

lemma exponent_upper:
  assumes "x \<noteq> 0"
  shows "\<bar>x\<bar> < 2 powi (exponent x + 53)"
proof -
  have "\<lfloor>log 2 \<bar>x\<bar>\<rfloor> + 1 \<le> exponent x + 53"
    by (simp add: exponent_def)
  then have "(2::real) powi (\<lfloor>log 2 \<bar>x\<bar>\<rfloor> + 1) \<le> 2 powi (exponent x + 53)"
    by (rule two_powi_mono)
  then show ?thesis
    using two_powi_floor_log(2) [of "\<bar>x\<bar>"] assms by simp
qed

lemma float64_grid:
  assumes "is_float64 y"
  shows "(\<exists>j. y = of_int j * 2 powi e) \<or> \<bar>y\<bar> < 2 powi (e + 52) \<and> - 1074 < e"
proof -
  from assms obtain m e' where m: "\<bar>m\<bar> < 2 ^ 53" and e': "- 1074 \<le> e'"
    and y: "y = of_int m * 2 powi e'"
    unfolding is_float64_def by blast
  show ?thesis
  proof (cases "e \<le> e'")
    case True
    have "(2::real) powi e' = 2 powi (e' - e) * 2 powi e"
      using two_powi_add [of "e' - e" e] by simp
    also have "(2::real) powi (e' - e) = of_int (2 ^ nat (e' - e))"
      using True by (intro two_powi_int) simp
    finally have "y = of_int (m * 2 ^ nat (e' - e)) * 2 powi e"
      using y by simp
    then show ?thesis
      by blast
  next
    case False
    then have "e' + 53 \<le> e + 52"
      by simp
    then have le: "(2::real) powi (e' + 53) \<le> 2 powi (e + 52)"
      by (rule two_powi_mono)
    have "real_of_int \<bar>m\<bar> < of_int (2 ^ 53)"
      using m by (simp only: of_int_less_iff)
    then have "\<bar>real_of_int m\<bar> < 2 powi 53"
      by simp
    then have "\<bar>real_of_int m\<bar> * 2 powi e' < 2 powi 53 * 2 powi e'"
      by (intro mult_strict_right_mono) simp_all
    also have "\<dots> = 2 powi (e' + 53)"
      using two_powi_add [of 53 e'] by (simp add: add.commute)
    finally have "\<bar>y\<bar> < 2 powi (e' + 53)"
      using y by (simp add: abs_mult)
    with le False e' show ?thesis
      by simp
  qed
qed

lemma round_to_grid:
  assumes "x \<noteq> 0"
  shows "\<bar>x - round_to x\<bar> \<le> \<bar>x - of_int j * 2 powi exponent x\<bar>"
proof -
  define P where "P = (2::real) powi exponent x"
  have P: "0 < P"
    by (simp add: P_def)
  have "\<bar>x - round_to x\<bar> = \<bar>x / P - of_int (round_half_even (x / P))\<bar> * P"
    using P assms by (simp add: round_to_def P_def abs_mult [symmetric] field_simps)
  also have "\<dots> \<le> \<bar>x / P - of_int j\<bar> * P"
    using P by (intro mult_right_mono round_half_even_nearest) simp
  also have "\<dots> = \<bar>x - of_int j * P\<bar>"
    using P by (simp add: abs_mult [symmetric] field_simps)
  finally show ?thesis
    by (simp add: P_def)
qed

lemma round_to_nearest:
  assumes "is_float64 y"
  shows "\<bar>x - round_to x\<bar> \<le> \<bar>x - y\<bar>"
proof (cases "x = 0")
  case True
  then show ?thesis
    by (simp add: round_to_def)
next
  case False
  from float64_grid [OF assms, of "exponent x"] show ?thesis
  proof
    assume "\<exists>j. y = of_int j * 2 powi exponent x"
    then show ?thesis
      using round_to_grid [OF False] by auto
  next
    assume a: "\<bar>y\<bar> < 2 powi (exponent x + 52) \<and> - 1074 < exponent x"
    then have below: "2 powi (exponent x + 52) \<le> \<bar>x\<bar>"
      using exponent_binade [OF False] by simp
    define s :: int where "s = (if 0 < x then 1 else - 1)"
    have "(2::real) powi (exponent x + 52) = 2 powi 52 * 2 powi exponent x"
      using two_powi_add [of 52 "exponent x"] by (simp add: add.commute)
    then have eq: "real_of_int (s * 2 ^ 52) * 2 powi exponent x = of_int s * 2 powi (exponent x + 52)"
      by simp
    have "\<bar>x - round_to x\<bar> \<le> \<bar>x - real_of_int (s * 2 ^ 52) * 2 powi exponent x\<bar>"
      by (rule round_to_grid [OF False])
    then have "\<bar>x - round_to x\<bar> \<le> \<bar>x - of_int s * 2 powi (exponent x + 52)\<bar>"
      by (simp only: eq)
    also have "\<dots> = \<bar>x\<bar> - 2 powi (exponent x + 52)"
      using below False by (auto simp: s_def)
    also have "\<dots> \<le> \<bar>x - y\<bar>"
      using a by linarith
    finally show ?thesis .
  qed
qed

lemma is_float64_zero: "is_float64 0"
  unfolding is_float64_def by (rule exI [of _ 0], rule exI [of _ 0]) simp

lemma overflow_threshold_eq: "overflow_threshold = (2 ^ 53 - 1 / 2) * 2 powi 971"
  by (simp add: overflow_threshold_def)

lemma overflow_threshold_less: "overflow_threshold < 2 powi 1024"
  by (simp add: overflow_threshold_def)

lemma is_float64_bounded:
  assumes "is_float64 y"
  shows "\<bar>y\<bar> < overflow_threshold"
proof -
  from assms obtain m e where m: "\<bar>m\<bar> < 2 ^ 53" and e: "e \<le> 971"
    and y: "y = of_int m * 2 powi e"
    unfolding is_float64_def by blast
  have "\<bar>m\<bar> \<le> 2 ^ 53 - 1"
    using m by simp
  then have "real_of_int \<bar>m\<bar> \<le> of_int (2 ^ 53 - 1)"
    by (simp only: of_int_le_iff)
  then have m': "\<bar>real_of_int m\<bar> \<le> 2 ^ 53 - 1"
    by simp
  have "\<bar>y\<bar> = \<bar>real_of_int m\<bar> * 2 powi e"
    by (simp add: y abs_mult)
  also have "\<dots> \<le> \<bar>real_of_int m\<bar> * 2 powi 971"
    using e by (intro mult_left_mono two_powi_mono) simp_all
  also have "\<dots> \<le> (2 ^ 53 - 1) * 2 powi 971"
    using m' by (intro mult_right_mono) simp_all
  also have "\<dots> < (2 ^ 53 - 1 / 2) * 2 powi 971"
    by (intro mult_strict_right_mono) simp_all
  finally show ?thesis
    by (simp only: overflow_threshold_eq)
qed

lemma exponent_in_range:
  assumes "x \<noteq> 0" and "\<bar>x\<bar> < overflow_threshold"
  shows "exponent x \<le> 971"
proof -
  have "2 powi \<lfloor>log 2 \<bar>x\<bar>\<rfloor> \<le> \<bar>x\<bar>"
    using two_powi_floor_log(1) [of "\<bar>x\<bar>"] assms(1) by simp
  also have "\<dots> < 2 powi 1024"
    using assms(2) overflow_threshold_less by linarith
  finally have "\<lfloor>log 2 \<bar>x\<bar>\<rfloor> < 1024"
    using two_powi_mono [of 1024 "\<lfloor>log 2 \<bar>x\<bar>\<rfloor>"] by linarith
  then show ?thesis
    by (simp add: exponent_def)
qed

lemma round_to_is_float64:
  assumes "\<bar>x\<bar> < overflow_threshold"
  shows "is_float64 (round_to x)"
proof (cases "x = 0")
  case True
  then show ?thesis
    by (simp add: round_to_def is_float64_zero)
next
  case False
  define e where "e = exponent x"
  define P where "P = (2::real) powi e"
  define q where "q = x / P"
  define m where "m = round_half_even q"
  have P: "0 < P"
    by (simp add: P_def)
  have e_lo: "- 1074 \<le> e" and e_hi: "e \<le> 971"
    using exponent_lower [of x] exponent_in_range [OF False assms] by (simp_all add: e_def)
  have r: "round_to x = of_int m * P"
    using False by (simp add: round_to_def m_def q_def P_def e_def)
  have near: "\<bar>q - of_int m\<bar> \<le> 1 / 2"
    unfolding m_def by (rule round_half_even_half)
  have "\<bar>x\<bar> < 2 powi (e + 53)"
    using exponent_upper [OF False] by (simp add: e_def)
  also have "\<dots> = 2 ^ 53 * P"
    using two_powi_add [of 53 e] by (simp add: P_def add.commute)
  finally have "\<bar>x\<bar> / P < 2 ^ 53"
    using P by (simp add: field_simps)
  then have q: "\<bar>q\<bar> < 2 ^ 53"
    using P by (simp add: q_def)
  have "\<bar>real_of_int m\<bar> < 2 ^ 53 + 1"
    using near q by linarith
  then have "real_of_int \<bar>m\<bar> < of_int (2 ^ 53 + 1)"
    by simp
  then have "\<bar>m\<bar> < 2 ^ 53 + 1"
    by (simp only: of_int_less_iff)
  then have m: "\<bar>m\<bar> \<le> 2 ^ 53"
    by simp
  show ?thesis
  proof (cases "\<bar>m\<bar> < 2 ^ 53")
    case True
    with e_lo e_hi r show ?thesis
      unfolding is_float64_def P_def by blast
  next
    case False
    with m have top: "\<bar>m\<bar> = 2 ^ 53"
      by simp
    have "e \<noteq> 971"
    proof
      assume e: "e = 971"
      have "\<bar>x\<bar> < (2 ^ 53 - 1 / 2) * P"
        using assms by (simp only: overflow_threshold_eq P_def e)
      then have "\<bar>x\<bar> / P < 2 ^ 53 - 1 / 2"
        using P by (simp add: field_simps)
      then have "\<bar>q\<bar> < 2 ^ 53 - 1 / 2"
        using P by (simp add: q_def)
      then have "\<bar>real_of_int m\<bar> < 2 ^ 53"
        using near by linarith
      then have "real_of_int \<bar>m\<bar> < of_int (2 ^ 53)"
        by simp
      then have "\<bar>m\<bar> < 2 ^ 53"
        by (simp only: of_int_less_iff)
      with top show False
        by simp
    qed
    with e_hi have e': "e + 1 \<le> 971"
      by simp
    define s :: int where "s = (if 0 < m then 2 ^ 52 else - (2 ^ 52))"
    have s: "\<bar>s\<bar> < 2 ^ 53" and ms: "m = s * 2"
      using top by (auto simp: s_def)
    have "real_of_int m * P = of_int s * (2 * P)"
      by (simp add: ms)
    also have "2 * P = 2 powi (e + 1)"
      using two_powi_add [of 1 e] by (simp add: P_def add.commute)
    finally have "round_to x = of_int s * 2 powi (e + 1)"
      by (simp only: r)
    moreover have "- 1074 \<le> e + 1"
      using e_lo by simp
    ultimately show ?thesis
      using s e' unfolding is_float64_def by blast
  qed
qed

lemma round_to_float64:
  assumes "is_float64 x"
  shows "round_to x = x"
  using round_to_nearest [OF assms, of x] by simp

lemma round_to_mono:
  assumes "x \<le> y" and "\<bar>x\<bar> < overflow_threshold" and "\<bar>y\<bar> < overflow_threshold"
  shows "round_to x \<le> round_to y"
proof (cases "x = y")
  case True
  then show ?thesis
    by simp
next
  case False
  have "\<bar>x - round_to x\<bar> \<le> \<bar>x - round_to y\<bar>"
    by (rule round_to_nearest) (rule round_to_is_float64 [OF assms(3)])
  moreover have "\<bar>y - round_to y\<bar> \<le> \<bar>y - round_to x\<bar>"
    by (rule round_to_nearest) (rule round_to_is_float64 [OF assms(2)])
  ultimately show ?thesis
    using assms(1) False by linarith
qed

lemma is_float64_of_int:
  assumes "\<bar>n\<bar> \<le> 2 ^ 53"
  shows "is_float64 (of_int n)"
proof (cases "\<bar>n\<bar> < 2 ^ 53")
  case True
  then show ?thesis
    unfolding is_float64_def by (intro exI [of _ n] exI [of _ 0]) simp
next
  case False
  define s :: int where "s = (if 0 < n then 2 ^ 52 else - (2 ^ 52))"
  have "\<bar>s\<bar> < 2 ^ 53" and "real_of_int n = of_int s * 2 powi 1"
    using False assms by (auto simp: s_def)
  then show ?thesis
    unfolding is_float64_def by (intro exI [of _ s] exI [of _ 1]) simp
qed

lemma is_float64_Ints:
  assumes "x \<in> \<int>" and "\<bar>x\<bar> \<le> 2 ^ 53"
  shows "is_float64 x"
proof -
  from assms(1) obtain n where x: "x = of_int n"
    by (auto elim: Ints_cases)
  have "real_of_int \<bar>n\<bar> \<le> of_int (2 ^ 53)"
    using assms(2) by (simp add: x)
  then have "\<bar>n\<bar> \<le> 2 ^ 53"
    by (simp only: of_int_le_iff)
  then show ?thesis
    unfolding x by (rule is_float64_of_int)
qed

subsection \<open>Order and addition\<close>

lemma overflow_threshold_pos: "0 < overflow_threshold"
  by (simp add: overflow_threshold_def)

lemma rnd_mono:
  assumes "x \<le> y"
  shows "rnd x \<le> rnd y"
proof -
  consider "overflow_threshold \<le> y" | "x \<le> - overflow_threshold"
    | "\<bar>x\<bar> < overflow_threshold" "\<bar>y\<bar> < overflow_threshold"
    using assms by linarith
  then show ?thesis
  proof cases
    case 1
    then show ?thesis
      by (simp add: rnd_def)
  next
    case 2
    then show ?thesis
      using overflow_threshold_pos by (simp add: rnd_def)
  next
    case 3
    then show ?thesis
      using round_to_mono [OF assms] by (simp add: rnd_def abs_less_iff)
  qed
qed

lemma rnd_representable: "representable (rnd x)"
  using round_to_is_float64 [of x] by (simp add: rnd_def representable_def abs_less_iff)

lemma rnd_float64:
  assumes "is_float64 x"
  shows "rnd x = Fin x"
  using is_float64_bounded [OF assms] round_to_float64 [OF assms]
  by (simp add: rnd_def abs_less_iff)

lemma rnd_zero: "rnd 0 = Fin 0"
  by (rule rnd_float64) (rule is_float64_zero)

lemma fadd_representable: "representable (fadd a b)"
  by (cases a; cases b) (simp_all add: rnd_representable, simp_all add: representable_def)

lemma rnd_le_PInf: "rnd x \<le> PInf"
  by (simp add: rnd_def)

lemma rnd_Ints:
  assumes "x \<in> \<int>" and "\<bar>x\<bar> \<le> 2 ^ 53"
  shows "rnd x = Fin x"
  using assms by (intro rnd_float64 is_float64_Ints)

lemma nonneg_float64: "0 \<le> a \<longleftrightarrow> (\<exists>x. a = Fin x \<and> 0 \<le> x) \<or> a = PInf"
  by (cases a) (simp_all add: zero_float64_def)

lemma float64_total:
  fixes a b :: float64
  shows "0 \<le> a \<Longrightarrow> 0 \<le> b \<Longrightarrow> a \<le> b \<or> b < a"
  by (cases a; cases b) (auto simp: zero_float64_def)

lemma le_PInf:
  fixes a :: float64
  shows "0 \<le> a \<Longrightarrow> a \<le> PInf"
  by (cases a) (simp_all add: zero_float64_def)

lemma PInf_le: "PInf \<le> a \<Longrightarrow> a = PInf"
  by (cases a) simp_all

lemma less_finite:
  fixes a b :: float64
  shows "a < b \<Longrightarrow> a \<noteq> PInf \<and> a \<noteq> NaN"
  by (cases a; cases b) simp_all

lemma fadd_PInf: "fadd PInf w = PInf \<or> fadd PInf w = NaN"
  by (cases w) simp_all

lemma nonneg_less_PInf:
  fixes a :: float64
  shows "0 \<le> a \<Longrightarrow> a \<noteq> PInf \<Longrightarrow> a < PInf"
  by (cases a) (simp_all add: zero_float64_def)

lemma fadd_nonneg:
  fixes a w :: float64
  assumes "0 \<le> a" and "0 \<le> w"
  shows "0 \<le> fadd a w"
proof -
  have "Fin 0 \<le> rnd (x + y)" if "0 \<le> x" "0 \<le> y" for x y :: real
    using rnd_mono [of 0 "x + y"] that by (simp add: rnd_zero)
  then show ?thesis
    using assms by (cases a; cases w) (simp_all add: zero_float64_def)
qed

lemma fadd_mono:
  fixes a b w :: float64
  assumes "0 \<le> a" and "a \<le> b" and "0 \<le> w"
  shows "fadd a w \<le> fadd b w"
  using assms by (cases a; cases b; cases w) (simp_all add: zero_float64_def rnd_mono rnd_le_PInf)

lemma fadd_increasing:
  fixes a w :: float64
  assumes "representable a" and "0 \<le> a" and "0 \<le> w"
  shows "a \<le> fadd a w"
proof -
  have "Fin x \<le> rnd (x + y)" if "is_float64 x" "0 \<le> y" for x y :: real
    using rnd_mono [of x "x + y"] that by (simp add: rnd_float64)
  then show ?thesis
    using assms by (cases a; cases w) (simp_all add: zero_float64_def representable_def)
qed

lemma hop_count_exact:
  assumes "n < 2 ^ 53"
  shows "fadd (Fin (real n)) (Fin 1) = Fin (real n) + Fin 1"
proof -
  have "Suc n \<le> 2 ^ 53"
    using assms by simp
  then have "real (Suc n) \<le> real (2 ^ 53)"
    by (simp only: of_nat_le_iff)
  then have "\<bar>real n + 1\<bar> \<le> 2 ^ 53"
    by simp
  then show ?thesis
    by (simp add: rnd_Ints)
qed

text \<open>
  Three sums in which the rounding step shows: a tie rounded to the even neighbour, the
  largest power of two doubled, and the same power added to zero.
\<close>

lemma overflow_bound: "(9007199254740993::real) < overflow_threshold"
  by (simp add: overflow_threshold_def)

lemma exponent_example: "exponent 9007199254740993 = 1"
proof -
  have "\<lfloor>log 2 9007199254740993\<rfloor> = 53"
    using floor_log_eq_powr_iff [of 9007199254740993 2 53] by simp
  then show ?thesis
    by (simp add: exponent_def)
qed

lemma fadd_rounds: "fadd (Fin (2 ^ 53)) (Fin 1) = Fin (2 ^ 53)"
proof -
  have "round_half_even (9007199254740993 / 2) = 4503599627370496"
    by (simp add: round_half_even_def Let_def)
  then have "round_to 9007199254740993 = 9007199254740992"
    by (simp add: round_to_def exponent_example)
  then show ?thesis
    using overflow_bound overflow_threshold_pos by (simp add: rnd_def)
qed

lemma fadd_overflow: "fadd (Fin (2 ^ 1023)) (Fin (2 ^ 1023)) = PInf"
proof -
  have "overflow_threshold \<le> 2 ^ 1023 + 2 ^ 1023"
    by (simp add: overflow_threshold_def)
  then show ?thesis
    by (simp only: fadd.simps rnd_def if_True)
qed

lemma is_float64_big: "is_float64 (2 ^ 1023)"
  unfolding is_float64_def
proof (intro exI conjI)
  show "\<bar>2 ^ 52 :: int\<bar> < 2 ^ 53"
    by simp
  show "- 1074 \<le> (971::int)" "(971::int) \<le> 971"
    by simp_all
  show "(2::real) ^ 1023 = of_int (2 ^ 52) * 2 powi 971"
    by simp
qed

lemma fadd_zero_big: "fadd 0 (Fin (2 ^ 1023)) = Fin (2 ^ 1023)"
  using rnd_float64 [OF is_float64_big] by (simp add: zero_float64_def)

section \<open>Data model\<close>

text \<open>
  The Go struct \<^verbatim>\<open>Node[K comparable] struct { ID K }\<close>: an identity wrapper around the
  caller's key. Nodes are compared by value (they are map keys).
\<close>

datatype 'k Node = Node (ID: 'k)

text \<open>
  The struct \<^verbatim>\<open>graphData\<close> has the single field
  \<^verbatim>\<open>Adjacencies map[Node[K]]map[Node[K]]float64\<close>. Both levels are association lists with
  pairwise distinct keys; the order of a list is the order in which Go's \<^verbatim>\<open>range\<close>
  happens to enumerate that map, so a statement about every list covers every
  enumeration order. A mutating method takes the value of the store and returns the new
  one. Which maps two stores share is a matter of addresses; it is taken up in the last
  section, where this value is what an address stands for.
\<close>

type_synonym 'k adjacency = "('k Node \<times> float64) list"
type_synonym 'k graphData = "('k Node \<times> 'k adjacency) list"

text \<open>\<^verbatim>\<open>g.Adjacencies[n]\<close> read as a map to range over: a missing key gives the nil map.\<close>

definition adjacency :: "'k graphData \<Rightarrow> 'k Node \<Rightarrow> 'k adjacency" where
  "adjacency g n = (case map_of g n of None \<Rightarrow> [] | Some a \<Rightarrow> a)"

definition newGraphData :: "'k graphData" where
  "newGraphData = []"

section \<open>The graph store (graph/graph.go)\<close>

definition HasNode :: "'k graphData \<Rightarrow> 'k Node \<Rightarrow> bool" where
  "HasNode g u = (map_of g u \<noteq> None)"

definition HasEdge :: "'k graphData \<Rightarrow> 'k Node \<Rightarrow> 'k Node \<Rightarrow> bool" where
  "HasEdge g u v =
     (case map_of g u of None \<Rightarrow> False | Some a \<Rightarrow> map_of a v \<noteq> None)"

text \<open>The stored weight \<^verbatim>\<open>g.Adjacencies[u][v]\<close>, with its presence flag.\<close>

definition weight :: "'k graphData \<Rightarrow> 'k Node \<Rightarrow> 'k Node \<Rightarrow> float64 option" where
  "weight g u v = map_of (adjacency g u) v"

definition AddNode :: "'k graphData \<Rightarrow> 'k Node \<Rightarrow> 'k graphData" where
  "AddNode g n = (if map_of g n = None then g @ [(n, [])] else g)"

definition RemoveNode :: "'k graphData \<Rightarrow> 'k Node \<Rightarrow> 'k graphData" where
  "RemoveNode g n =
     AList.delete n (map (\<lambda>(node, a). (node, AList.delete n a)) g)"

definition Nodes :: "'k graphData \<Rightarrow> 'k Node list" where
  "Nodes g = map fst g"

definition Successors :: "'k graphData \<Rightarrow> 'k Node \<Rightarrow> 'k Node list" where
  "Successors g n = map fst (adjacency g n)"

definition Predecessors :: "'k graphData \<Rightarrow> 'k Node \<Rightarrow> 'k Node list" where
  "Predecessors g n =
     concat (map (\<lambda>(node, a). concat (map (\<lambda>(neigh, w). if neigh = n then [node] else []) a)) g)"

definition InDegree :: "'k graphData \<Rightarrow> 'k Node \<Rightarrow> nat" where
  "InDegree g n = length (Predecessors g n)"

definition OutDegree :: "'k graphData \<Rightarrow> 'k Node \<Rightarrow> nat" where
  "OutDegree g n = length (Successors g n)"

definition Degree :: "'k graphData \<Rightarrow> 'k Node \<Rightarrow> nat" where
  "Degree g n = InDegree g n + OutDegree g n"

definition Neighbors :: "'k graphData \<Rightarrow> 'k Node \<Rightarrow> 'k Node list" where
  "Neighbors g n = Successors g n @ Predecessors g n"

text \<open>
  The older store in graph.go produces its sequences as iterators. Its
  \<^verbatim>\<open>Predecessors\<close> walks the same two loops but yields \<^verbatim>\<open>neigh\<close>, the node being
  looked for, where graph/graph.go appends \<^verbatim>\<open>node\<close>. This is the sequence a consumer
  that never stops early collects.
\<close>

definition Predecessors_iter :: "'k graphData \<Rightarrow> 'k Node \<Rightarrow> 'k Node list" where
  "Predecessors_iter g n =
     concat (map (\<lambda>(node, a). concat (map (\<lambda>(neigh, w). if neigh = n then [neigh] else []) a)) g)"

section \<open>Directed and undirected graphs (directed.go, undirected.go)\<close>

text \<open>
  Both \<^verbatim>\<open>AddEdge\<close> methods first add the endpoints that are missing, so the assignments
  \<^verbatim>\<open>g.Adjacencies[u][v] = w\<close> that follow always find the inner map.
\<close>

definition set_weight :: "'k graphData \<Rightarrow> 'k Node \<Rightarrow> 'k Node \<Rightarrow> float64 \<Rightarrow> 'k graphData" where
  "set_weight g u v w = AList.map_entry u (AList.update v w) g"

definition delete_weight :: "'k graphData \<Rightarrow> 'k Node \<Rightarrow> 'k Node \<Rightarrow> 'k graphData" where
  "delete_weight g u v = AList.map_entry u (AList.delete v) g"

definition add_endpoints :: "'k graphData \<Rightarrow> 'k Node \<Rightarrow> 'k Node \<Rightarrow> 'k graphData" where
  "add_endpoints g u v =
     (let g1 = (if map_of g u = None then AddNode g u else g)
      in if map_of g1 v = None then AddNode g1 v else g1)"

definition Directed_AddEdge ::
  "'k graphData \<Rightarrow> 'k Node \<Rightarrow> 'k Node \<Rightarrow> float64 \<Rightarrow> 'k graphData" where
  "Directed_AddEdge g u v w = set_weight (add_endpoints g u v) u v w"

definition Directed_RemoveEdge :: "'k graphData \<Rightarrow> 'k Node \<Rightarrow> 'k Node \<Rightarrow> 'k graphData" where
  "Directed_RemoveEdge g u v = delete_weight g u v"

definition Undirected_AddEdge ::
  "'k graphData \<Rightarrow> 'k Node \<Rightarrow> 'k Node \<Rightarrow> float64 \<Rightarrow> 'k graphData" where
  "Undirected_AddEdge g u v w =
     set_weight (set_weight (add_endpoints g u v) u v w) v u w"

definition Undirected_RemoveEdge :: "'k graphData \<Rightarrow> 'k Node \<Rightarrow> 'k Node \<Rightarrow> 'k graphData" where
  "Undirected_RemoveEdge g u v = delete_weight (delete_weight g u v) v u"

definition Undirected_Neighbors :: "'k graphData \<Rightarrow> 'k Node \<Rightarrow> 'k Node list" where
  "Undirected_Neighbors g n = Successors g n"

definition Undirected_Predecessors :: "'k graphData \<Rightarrow> 'k Node \<Rightarrow> 'k Node list" where
  "Undirected_Predecessors g n = Successors g n"

definition Undirected_Degree :: "'k graphData \<Rightarrow> 'k Node \<Rightarrow> nat" where
  "Undirected_Degree g n = length (Undirected_Neighbors g n)"

text \<open>
  What makes a list of lists a value of the Go type, and what the exported mutators keep:
  keys are unique at both levels, and every neighbour of a node is itself a node.
\<close>

definition wf_graph :: "'k graphData \<Rightarrow> bool" where
  "wf_graph g =
     (distinct (map fst g) \<and>
      list_all (\<lambda>(n, a). distinct (map fst a) \<and> list_all (\<lambda>(v, w). map_of g v \<noteq> None) a) g)"

section \<open>Lookups after each mutation\<close>

lemma map_of_map_entry: "map_of (AList.map_entry k f al) x = (if x = k then map_option f (map_of al k) else map_of al x)"
  by (induction al) auto

lemma fst_map_entry: "map fst (AList.map_entry k f al) = map fst al"
  by (induction al) auto

lemma map_of_AddNode: "map_of (AddNode g n) x = (if x = n \<and> map_of g n = None then Some [] else map_of g x)"
  by (auto simp: AddNode_def map_add_def split: option.splits)

lemma HasNode_AddNode: "HasNode (AddNode g n) x = (x = n \<or> HasNode g x)"
  by (auto simp: HasNode_def map_of_AddNode)

lemma HasEdge_AddNode: "HasEdge (AddNode g n) a b = HasEdge g a b"
  by (auto simp: HasEdge_def map_of_AddNode split: option.splits)

lemma weight_AddNode: "weight (AddNode g n) a b = weight g a b"
  by (auto simp: weight_def adjacency_def map_of_AddNode split: option.splits)

lemma HasEdge_weight: "HasEdge g u v = (weight g u v \<noteq> None)"
  by (auto simp: HasEdge_def weight_def adjacency_def split: option.splits)

lemma map_of_add_endpoints:
  "map_of (add_endpoints g u v) x = (if (x = u \<or> x = v) \<and> map_of g x = None then Some [] else map_of g x)"
  by (auto simp: add_endpoints_def Let_def map_of_AddNode)

lemma weight_add_endpoints: "weight (add_endpoints g u v) a b = weight g a b"
  by (auto simp: weight_def adjacency_def map_of_add_endpoints split: option.splits)

lemma HasNode_add_endpoints: "HasNode (add_endpoints g u v) x = (x = u \<or> x = v \<or> HasNode g x)"
  by (auto simp: HasNode_def map_of_add_endpoints)

lemma weight_set_weight:
  "weight (set_weight g u v w) a b = (if a = u \<and> b = v \<and> HasNode g u then Some w else weight g a b)"
  by (auto simp: weight_def adjacency_def set_weight_def map_of_map_entry HasNode_def update_conv' split: option.splits)

lemma HasNode_set_weight: "HasNode (set_weight g u v w) x = HasNode g x"
  by (auto simp: HasNode_def set_weight_def map_of_map_entry)

lemma weight_delete_weight:
  "weight (delete_weight g u v) a b = (if a = u \<and> b = v then None else weight g a b)"
  by (auto simp: weight_def adjacency_def delete_weight_def map_of_map_entry delete_conv' split: option.splits)

lemma HasNode_delete_weight: "HasNode (delete_weight g u v) x = HasNode g x"
  by (auto simp: HasNode_def delete_weight_def map_of_map_entry)

lemma map_of_map_delete:
  "map_of (map (\<lambda>(node, a). (node, AList.delete n a)) g) x = map_option (AList.delete n) (map_of g x)"
  by (induction g) auto

lemma map_of_RemoveNode:
  "map_of (RemoveNode g n) x = (if x = n then None else map_option (AList.delete n) (map_of g x))"
  by (simp add: RemoveNode_def delete_conv' map_of_map_delete)

lemma weight_RemoveNode:
  "weight (RemoveNode g n) a b = (if a = n \<or> b = n then None else weight g a b)"
  by (auto simp: weight_def adjacency_def map_of_RemoveNode delete_conv' split: option.splits)

lemma HasNode_RemoveNode: "HasNode (RemoveNode g n) x = (x \<noteq> n \<and> HasNode g x)"
  by (auto simp: HasNode_def map_of_RemoveNode)

section \<open>Well-formed graphs stay well-formed\<close>

lemma wf_graph_iff:
  "wf_graph g \<longleftrightarrow> distinct (map fst g) \<and>
     (\<forall>n a. map_of g n = Some a \<longrightarrow> distinct (map fst a) \<and> (\<forall>v \<in> set (map fst a). HasNode g v))"
proof -
  have "distinct (map fst g) \<Longrightarrow> ((n, a) \<in> set g) = (map_of g n = Some a)" for n a
    by (auto)
  then show ?thesis
    unfolding wf_graph_def list_all_iff HasNode_def
    by (fastforce)
qed

lemma wf_graphI:
  assumes "distinct (map fst g)"
    and "\<And>n a. map_of g n = Some a \<Longrightarrow> distinct (map fst a)"
    and "\<And>n a v. map_of g n = Some a \<Longrightarrow> v \<in> set (map fst a) \<Longrightarrow> HasNode g v"
  shows "wf_graph g"
  using assms unfolding wf_graph_iff by blast

lemma wf_graph_distinct: "wf_graph g \<Longrightarrow> distinct (map fst g)"
  by (simp add: wf_graph_iff)

lemma wf_graph_adj_distinct: "wf_graph g \<Longrightarrow> map_of g n = Some a \<Longrightarrow> distinct (map fst a)"
  by (simp add: wf_graph_iff)

lemma wf_graph_closed: "wf_graph g \<Longrightarrow> map_of g n = Some a \<Longrightarrow> v \<in> set (map fst a) \<Longrightarrow> HasNode g v"
  unfolding wf_graph_iff by blast

lemma wf_newGraphData: "wf_graph newGraphData"
  by (simp add: wf_graph_def newGraphData_def)

lemma keys_AddNode: "map fst (AddNode g n) = (if map_of g n = None then map fst g @ [n] else map fst g)"
  by (simp add: AddNode_def)

lemma wf_AddNode:
  assumes "wf_graph g" shows "wf_graph (AddNode g n)"
proof (rule wf_graphI)
  show "distinct (map fst (AddNode g n))"
    using wf_graph_distinct[OF assms] by (auto simp: keys_AddNode map_of_eq_None_iff)
next
  fix m a assume "map_of (AddNode g n) m = Some a"
  then show "distinct (map fst a)"
    using wf_graph_adj_distinct[OF assms] by (auto simp: map_of_AddNode split: if_splits)
next
  fix m a v assume "map_of (AddNode g n) m = Some a" "v \<in> set (map fst a)"
  then show "HasNode (AddNode g n) v"
    using wf_graph_closed[OF assms] by (auto simp: map_of_AddNode HasNode_AddNode split: if_splits)
qed

lemma wf_add_endpoints: "wf_graph g \<Longrightarrow> wf_graph (add_endpoints g u v)"
  by (simp add: add_endpoints_def Let_def wf_AddNode)

lemma keys_update: "set (map fst (AList.update k v al)) = insert k (set (map fst al))"
  using dom_update[of k v al] by simp

lemma keys_delete: "set (map fst (AList.delete k al)) = set (map fst al) - {k}"
  by (simp add: delete_keys)

lemma wf_set_weight:
  assumes "wf_graph g" "HasNode g v" shows "wf_graph (set_weight g u v w)"
proof (rule wf_graphI)
  show "distinct (map fst (set_weight g u v w))"
    using wf_graph_distinct[OF assms(1)] by (simp add: set_weight_def fst_map_entry)
next
  fix m a assume "map_of (set_weight g u v w) m = Some a"
  then show "distinct (map fst a)"
    using wf_graph_adj_distinct[OF assms(1)]
    by (auto simp: set_weight_def map_of_map_entry distinct_update split: if_splits)
next
  fix m a x assume "map_of (set_weight g u v w) m = Some a" "x \<in> set (map fst a)"
  then have "HasNode g x"
    using wf_graph_closed[OF assms(1)] assms(2)
    by (auto simp: set_weight_def map_of_map_entry keys_update simp del: set_map split: if_splits)
  then show "HasNode (set_weight g u v w) x"
    by (simp add: HasNode_set_weight)
qed

lemma wf_delete_weight:
  assumes "wf_graph g" shows "wf_graph (delete_weight g u v)"
proof (rule wf_graphI)
  show "distinct (map fst (delete_weight g u v))"
    using wf_graph_distinct[OF assms(1)] by (simp add: delete_weight_def fst_map_entry)
next
  fix m a assume "map_of (delete_weight g u v) m = Some a"
  then show "distinct (map fst a)"
    using wf_graph_adj_distinct[OF assms(1)]
    by (auto simp: delete_weight_def map_of_map_entry distinct_delete split: if_splits)
next
  fix m a x assume "map_of (delete_weight g u v) m = Some a" "x \<in> set (map fst a)"
  then have "HasNode g x"
    using wf_graph_closed[OF assms(1)]
    by (auto simp: delete_weight_def map_of_map_entry keys_delete simp del: set_map split: if_splits)
  then show "HasNode (delete_weight g u v) x"
    by (simp add: HasNode_delete_weight)
qed

lemma keys_RemoveNode: "map fst (RemoveNode g n) = removeAll n (map fst g)"
  by (simp add: RemoveNode_def delete_keys comp_def case_prod_unfold)

lemma wf_RemoveNode:
  assumes "wf_graph g" shows "wf_graph (RemoveNode g n)"
proof (rule wf_graphI)
  show "distinct (map fst (RemoveNode g n))"
    using wf_graph_distinct[OF assms(1)] by (simp add: keys_RemoveNode distinct_removeAll)
next
  fix m a assume "map_of (RemoveNode g n) m = Some a"
  then show "distinct (map fst a)"
    using wf_graph_adj_distinct[OF assms(1)]
    by (auto simp: map_of_RemoveNode distinct_delete split: if_splits)
next
  fix m a x assume "map_of (RemoveNode g n) m = Some a" "x \<in> set (map fst a)"
  then have "HasNode g x \<and> x \<noteq> n"
    using wf_graph_closed[OF assms(1)]
    by (auto simp: map_of_RemoveNode keys_delete simp del: set_map split: if_splits)
  then show "HasNode (RemoveNode g n) x"
    by (simp add: HasNode_RemoveNode)
qed

lemma wf_Directed_AddEdge: "wf_graph g \<Longrightarrow> wf_graph (Directed_AddEdge g u v w)"
  by (simp add: Directed_AddEdge_def wf_set_weight wf_add_endpoints HasNode_add_endpoints)

lemma wf_Undirected_AddEdge: "wf_graph g \<Longrightarrow> wf_graph (Undirected_AddEdge g u v w)"
  by (simp add: Undirected_AddEdge_def wf_set_weight wf_add_endpoints HasNode_add_endpoints HasNode_set_weight)

lemma wf_Undirected_RemoveEdge: "wf_graph g \<Longrightarrow> wf_graph (Undirected_RemoveEdge g u v)"
  by (simp add: Undirected_RemoveEdge_def wf_delete_weight)

section \<open>Successors, predecessors and neighbours\<close>

lemma inner_scan:
  "distinct (map fst a) \<Longrightarrow>
   concat (map (\<lambda>(neigh, w). if neigh = n then [node] else []) a)
     = (if map_of a n \<noteq> None then [node] else [])"
proof (induction a)
  case Nil
  then show ?case by simp
next
  case (Cons p a)
  then show ?case
    by (cases p) (auto simp: map_of_eq_None_iff image_iff)
qed

lemma scan_filter:
  "\<forall>(node, a) \<in> set g. distinct (map fst a) \<Longrightarrow>
   concat (map (\<lambda>(node, a). concat (map (\<lambda>(neigh, w). if neigh = n then [node] else []) a)) g)
     = map fst (filter (\<lambda>(node, a). map_of a n \<noteq> None) g)"
proof (induction g)
  case Nil
  then show ?case by simp
next
  case (Cons p g)
  obtain node a where p: "p = (node, a)" by (cases p)
  from Cons.prems have "distinct (map fst a)" by (simp add: p)
  then show ?case
    using Cons by (simp add: p inner_scan)
qed

lemma Predecessors_filter:
  assumes "wf_graph g"
  shows "Predecessors g n = map fst (filter (\<lambda>(node, a). map_of a n \<noteq> None) g)"
proof -
  have "\<forall>(node, a) \<in> set g. distinct (map fst a)"
    using assms by (auto simp: wf_graph_def list_all_iff)
  then show ?thesis
    unfolding Predecessors_def by (rule scan_filter)
qed

lemma distinct_Predecessors: "wf_graph g \<Longrightarrow> distinct (Predecessors g n)"
  by (simp add: Predecessors_filter wf_graph_distinct distinct_map_filter)

lemma set_Predecessors: 
  assumes "wf_graph g" shows "set (Predecessors g n) = {m. HasEdge g m n}"
proof -
  have "distinct (map fst g)" using assms by (rule wf_graph_distinct)
  then have "((m, a) \<in> set g) = (map_of g m = Some a)" for m a by auto
  then show ?thesis
    by (auto simp: Predecessors_filter[OF assms] HasEdge_def image_iff split: option.splits)
qed

lemma distinct_Successors: "wf_graph g \<Longrightarrow> distinct (Successors g n)"
  by (auto simp: Successors_def adjacency_def wf_graph_adj_distinct split: option.splits)

lemma set_Successors: "set (Successors g n) = {v. HasEdge g n v}"
proof (cases "map_of g n")
  case None
  then show ?thesis by (simp add: Successors_def adjacency_def HasEdge_def)
next
  case (Some a)
  have "(v \<in> fst ` set a) = (map_of a v \<noteq> None)" for v
    by (simp add: map_of_eq_None_iff)
  then show ?thesis
    using Some by (auto simp: Successors_def adjacency_def HasEdge_def simp del: map_of_eq_None_iff)
qed

lemma count_list_distinct: "distinct xs \<Longrightarrow> count_list xs x = (if x \<in> set xs then 1 else 0)"
  by (induction xs) auto

text \<open>
  C10. On the base store, and so on a directed graph, \<^verbatim>\<open>Neighbors(n)\<close> is the successors
  followed by the predecessors, with nothing removed: a node that is both (mutual edges,
  or a self-loop when it is \<open>n\<close> itself) is listed exactly twice, and \<^verbatim>\<open>Degree(n)\<close> is the
  length of that list, so it counts such a node twice as well.
\<close>

theorem Neighbors_concat_no_dedup:
  assumes "wf_graph g"
  shows "Neighbors g n = Successors g n @ Predecessors g n
       \<and> Degree g n = length (Neighbors g n)
       \<and> (HasEdge g n v \<and> HasEdge g v n \<longrightarrow> count_list (Neighbors g n) v = 2)"
proof -
  have "count_list (Successors g n) v = (if HasEdge g n v then 1 else 0)"
    by (simp add: count_list_distinct[OF distinct_Successors[OF assms]] set_Successors)
  moreover have "count_list (Predecessors g n) v = (if HasEdge g v n then 1 else 0)"
    by (simp add: count_list_distinct[OF distinct_Predecessors[OF assms]] set_Predecessors[OF assms])
  ultimately show ?thesis
    by (simp add: Neighbors_def Degree_def InDegree_def OutDegree_def)
qed

theorem Neighbors_concat_no_dedup_witness:
  "wf_graph [(Node (1::nat), [(Node 2, Fin 1)]), (Node 2, [(Node 1, Fin 1)])]
   \<and> HasEdge [(Node (1::nat), [(Node 2, Fin 1)]), (Node 2, [(Node 1, Fin 1)])] (Node 1) (Node 2)
   \<and> HasEdge [(Node (1::nat), [(Node 2, Fin 1)]), (Node 2, [(Node 1, Fin 1)])] (Node 2) (Node 1)
   \<and> Neighbors [(Node (1::nat), [(Node 2, Fin 1)]), (Node 2, [(Node 1, Fin 1)])] (Node 1) = [Node 2, Node 2]
   \<and> Degree [(Node (1::nat), [(Node 2, Fin 1)]), (Node 2, [(Node 1, Fin 1)])] (Node 1) = 2
   \<and> count_list (Neighbors [(Node (1::nat), [(Node 2, Fin 1)]), (Node 2, [(Node 1, Fin 1)])] (Node 1)) (Node 2) = 2"
proof -
  have w: "wf_graph [(Node (1::nat), [(Node 2, Fin 1)]), (Node 2, [(Node 1, Fin 1)])]"
    by (simp add: wf_graph_def)
  show ?thesis
    using w Neighbors_concat_no_dedup[OF w, of "Node 1" "Node 2"]
    by (simp add: HasEdge_def Successors_def Predecessors_def adjacency_def)
qed

section \<open>Undirected graphs are symmetric\<close>

text \<open>The struct \<^verbatim>\<open>Edge[K]\<close>: the two end points and the weight.\<close>

datatype 'k Edge = Edge (edge_u: "'k Node") (edge_v: "'k Node") (edge_weight: float64)

definition AddNodesFrom :: "'k graphData \<Rightarrow> 'k Node list \<Rightarrow> 'k graphData" where
  "AddNodesFrom g ns = foldl AddNode g ns"

definition RemoveNodesFrom :: "'k graphData \<Rightarrow> 'k Node list \<Rightarrow> 'k graphData" where
  "RemoveNodesFrom g ns = foldl RemoveNode g ns"

definition Clear :: "'k graphData \<Rightarrow> 'k graphData" where
  "Clear g = []"

definition NewUndirectedGraph :: "'k graphData" where
  "NewUndirectedGraph = newGraphData"

definition NewDirectedGraph :: "'k graphData" where
  "NewDirectedGraph = newGraphData"

definition Undirected_AddEdgesFrom :: "'k graphData \<Rightarrow> 'k Edge list \<Rightarrow> 'k graphData" where
  "Undirected_AddEdgesFrom g es =
     foldl (\<lambda>g e. Undirected_AddEdge g (edge_u e) (edge_v e) (edge_weight e)) g es"

definition Undirected_RemoveEdgesFrom :: "'k graphData \<Rightarrow> 'k Edge list \<Rightarrow> 'k graphData" where
  "Undirected_RemoveEdgesFrom g es =
     foldl (\<lambda>g e. delete_weight (delete_weight g (edge_u e) (edge_v e)) (edge_v e) (edge_u e)) g es"

text \<open>
  One call of a mutating method of \<^verbatim>\<open>*UndirectedGraph[K]\<close>: the four methods of
  undirected.go and the ones promoted from the embedded store.
\<close>

datatype 'k mutation =
    CallAddNode "'k Node"
  | CallAddNodesFrom "'k Node list"
  | CallRemoveNode "'k Node"
  | CallRemoveNodesFrom "'k Node list"
  | CallClear
  | CallAddEdge "'k Node" "'k Node" float64
  | CallAddEdgesFrom "'k Edge list"
  | CallRemoveEdge "'k Node" "'k Node"
  | CallRemoveEdgesFrom "'k Edge list"

fun Undirected_call :: "'k graphData \<Rightarrow> 'k mutation \<Rightarrow> 'k graphData" where
  "Undirected_call g (CallAddNode n) = AddNode g n"
| "Undirected_call g (CallAddNodesFrom ns) = AddNodesFrom g ns"
| "Undirected_call g (CallRemoveNode n) = RemoveNode g n"
| "Undirected_call g (CallRemoveNodesFrom ns) = RemoveNodesFrom g ns"
| "Undirected_call g CallClear = Clear g"
| "Undirected_call g (CallAddEdge u v w) = Undirected_AddEdge g u v w"
| "Undirected_call g (CallAddEdgesFrom es) = Undirected_AddEdgesFrom g es"
| "Undirected_call g (CallRemoveEdge u v) = Undirected_RemoveEdge g u v"
| "Undirected_call g (CallRemoveEdgesFrom es) = Undirected_RemoveEdgesFrom g es"

text \<open>Both directions of every pair store the same weight, or neither stores one.\<close>

definition symmetric :: "'k graphData \<Rightarrow> bool" where
  "symmetric g = (\<forall>u v. weight g u v = weight g v u)"

lemma symmetric_AddNode: "symmetric g \<Longrightarrow> symmetric (AddNode g n)"
  by (simp add: symmetric_def weight_AddNode)

lemma symmetric_RemoveNode: "symmetric g \<Longrightarrow> symmetric (RemoveNode g n)"
  by (auto simp: symmetric_def weight_RemoveNode)

lemma weight_Undirected_AddEdge:
  "weight (Undirected_AddEdge g u v w) a b =
     (if (a = u \<and> b = v) \<or> (a = v \<and> b = u) then Some w else weight g a b)"
proof -
  have "HasNode (add_endpoints g u v) u" "HasNode (add_endpoints g u v) v"
    by (simp_all add: HasNode_add_endpoints)
  then have "weight (Undirected_AddEdge g u v w) a b =
      (if a = v \<and> b = u then Some w else if a = u \<and> b = v then Some w else weight g a b)"
    by (simp only: Undirected_AddEdge_def weight_set_weight HasNode_set_weight
        weight_add_endpoints simp_thms)
  then show ?thesis by presburger
qed

lemma weight_Undirected_RemoveEdge:
  "weight (Undirected_RemoveEdge g u v) a b =
     (if (a = u \<and> b = v) \<or> (a = v \<and> b = u) then None else weight g a b)"
proof -
  have "weight (Undirected_RemoveEdge g u v) a b =
      (if a = v \<and> b = u then None else if a = u \<and> b = v then None else weight g a b)"
    by (simp only: Undirected_RemoveEdge_def weight_delete_weight)
  then show ?thesis by presburger
qed

lemma symmetric_Undirected_AddEdge: "symmetric g \<Longrightarrow> symmetric (Undirected_AddEdge g u v w)"
  by (auto simp: symmetric_def weight_Undirected_AddEdge)

lemma symmetric_Undirected_RemoveEdge: "symmetric g \<Longrightarrow> symmetric (Undirected_RemoveEdge g u v)"
  by (auto simp: symmetric_def weight_Undirected_RemoveEdge)

lemma symmetric_foldl:
  "(\<And>g x. symmetric g \<Longrightarrow> symmetric (f g x)) \<Longrightarrow> symmetric g \<Longrightarrow> symmetric (foldl f g xs)"
  by (induction xs arbitrary: g) auto

lemma symmetric_Undirected_call: "symmetric g \<Longrightarrow> symmetric (Undirected_call g c)"
proof (cases c)
  case (CallRemoveEdgesFrom es)
  assume "symmetric g"
  then show ?thesis
    unfolding CallRemoveEdgesFrom Undirected_call.simps Undirected_RemoveEdgesFrom_def
    by (rule symmetric_foldl[rotated])
       (rule symmetric_Undirected_RemoveEdge[unfolded Undirected_RemoveEdge_def])
qed (auto simp: AddNodesFrom_def RemoveNodesFrom_def Clear_def Undirected_AddEdgesFrom_def
      symmetric_AddNode symmetric_RemoveNode symmetric_Undirected_AddEdge
      symmetric_Undirected_RemoveEdge
      intro!: symmetric_foldl, simp add: symmetric_def weight_def adjacency_def)

lemma symmetric_calls: "symmetric (foldl Undirected_call NewUndirectedGraph cs)"
proof (rule symmetric_foldl)
  show "symmetric (NewUndirectedGraph :: 'a graphData)"
    by (simp add: symmetric_def NewUndirectedGraph_def newGraphData_def weight_def adjacency_def)
qed (rule symmetric_Undirected_call)

text \<open>
  C3. Whatever mutating methods have been called on a new undirected graph, in whatever
  order, \<^verbatim>\<open>HasEdge(u,v)\<close> and \<^verbatim>\<open>HasEdge(v,u)\<close> agree, and the two stored weights are the
  same (both present and equal, or both absent).
\<close>

theorem Undirected_symmetry:
  "HasEdge (foldl Undirected_call NewUndirectedGraph cs) u v
     = HasEdge (foldl Undirected_call NewUndirectedGraph cs) v u
   \<and> weight (foldl Undirected_call NewUndirectedGraph cs) u v
     = weight (foldl Undirected_call NewUndirectedGraph cs) v u"
  using symmetric_calls[of cs] by (simp add: HasEdge_weight symmetric_def)

section \<open>Predecessors, node removal and self-loops\<close>

text \<open>
  C4, on graph/graph.go: \<^verbatim>\<open>Predecessors(n)\<close> holds each node with an adjacency entry
  pointing to \<open>n\<close> once, and nothing else.
\<close>

lemma Predecessors_exact:
  "wf_graph g \<Longrightarrow> set (Predecessors g n) = {m. HasEdge g m n} \<and> distinct (Predecessors g n)"
  by (simp add: set_Predecessors distinct_Predecessors)

text \<open>
  C4, on graph.go: the iterator yields \<open>n\<close> itself once for every node that points to
  \<open>n\<close>. With the single edge from node 1 to node 2, the predecessors of node 2 come out
  as node 2, which has no entry pointing to node 2, and node 1, which has one, is missing.
\<close>

theorem Predecessors_iter_yields_the_target:
  "Predecessors_iter [(Node (1::nat), [(Node 2, Fin 1)]), (Node 2, [])] (Node 2) = [Node 2]
   \<and> HasEdge [(Node (1::nat), [(Node 2, Fin 1)]), (Node 2, [])] (Node 1) (Node 2)
   \<and> \<not> HasEdge [(Node (1::nat), [(Node 2, Fin 1)]), (Node 2, [])] (Node 2) (Node 2)
   \<and> Predecessors [(Node (1::nat), [(Node 2, Fin 1)]), (Node 2, [])] (Node 2) = [Node 1]"
  by (simp add: Predecessors_iter_def Predecessors_def HasEdge_def)

lemma RemoveNode_absent:
  assumes "wf_graph g" "\<not> HasNode g n"
  shows "RemoveNode g n = g"
proof -
  have keys: "n \<notin> fst ` set g"
    using assms(2) by (simp add: HasNode_def map_of_eq_None_iff)
  have "(\<lambda>(node, a). (node, AList.delete n a)) p = p" if "p \<in> set g" for p
  proof -
    obtain m a where p: "p = (m, a)" by (cases p)
    have "map_of g m = Some a"
      using that wf_graph_distinct[OF assms(1)] by (simp add: p)
    then have "n \<notin> set (map fst a)"
      using wf_graph_closed[OF assms(1)] assms(2) by blast
    then show ?thesis by (simp add: p)
  qed
  then have "map (\<lambda>(node, a). (node, AList.delete n a)) g = g"
    by (simp add: map_idI)
  then show ?thesis
    using keys by (simp add: RemoveNode_def)
qed

text \<open>
  C8. After \<^verbatim>\<open>RemoveNode(n)\<close> the node is gone, no node lists it as a successor and no node
  lists it as a predecessor; when \<open>n\<close> was not in the graph, the graph is the same as
  before. The model is a total function: \<^verbatim>\<open>delete\<close> on a Go map never fails.
\<close>

theorem RemoveNode_complete:
  assumes "wf_graph g"
  shows "\<not> HasNode (RemoveNode g n) n
       \<and> (\<forall>m. n \<notin> set (Successors (RemoveNode g n) m))
       \<and> (\<forall>m. n \<notin> set (Predecessors (RemoveNode g n) m))
       \<and> (\<not> HasNode g n \<longrightarrow> RemoveNode g n = g)"
proof -
  have wf': "wf_graph (RemoveNode g n)"
    using assms by (rule wf_RemoveNode)
  have "\<not> HasEdge (RemoveNode g n) a b" if "a = n \<or> b = n" for a b
    using that by (auto simp: HasEdge_weight weight_RemoveNode)
  then show ?thesis
    using RemoveNode_absent[OF assms]
    by (simp add: HasNode_RemoveNode set_Successors set_Predecessors[OF wf'])
qed

theorem RemoveNode_complete_witness:
  "wf_graph [(Node (1::nat), [(Node 2, Fin 1)]), (Node 2, [(Node 1, Fin 1)])]
   \<and> RemoveNode [(Node (1::nat), [(Node 2, Fin 1)]), (Node 2, [(Node 1, Fin 1)])] (Node 2)
       = [(Node 1, [])]
   \<and> \<not> HasNode (RemoveNode [(Node (1::nat), [(Node 2, Fin 1)]), (Node 2, [(Node 1, Fin 1)])] (Node 2)) (Node 2)
   \<and> \<not> HasNode [(Node (1::nat), [(Node 2, Fin 1)]), (Node 2, [(Node 1, Fin 1)])] (Node 3)
   \<and> RemoveNode [(Node (1::nat), [(Node 2, Fin 1)]), (Node 2, [(Node 1, Fin 1)])] (Node 3)
       = [(Node (1::nat), [(Node 2, Fin 1)]), (Node 2, [(Node 1, Fin 1)])]"
proof -
  have w: "wf_graph [(Node (1::nat), [(Node 2, Fin 1)]), (Node 2, [(Node 1, Fin 1)])]"
    by (simp add: wf_graph_def)
  have a: "\<not> HasNode [(Node (1::nat), [(Node 2, Fin 1)]), (Node 2, [(Node 1, Fin 1)])] (Node 3)"
    by (simp add: HasNode_def)
  show ?thesis
    using w a RemoveNode_complete[OF w, of "Node 2"] RemoveNode_complete[OF w, of "Node 3"]
    by (simp add: RemoveNode_def)
qed

lemma weight_Directed_AddEdge:
  "weight (Directed_AddEdge g u v w) a b = (if a = u \<and> b = v then Some w else weight g a b)"
  by (simp add: Directed_AddEdge_def weight_set_weight HasNode_add_endpoints weight_add_endpoints)

lemma singleton_list:
  assumes d: "distinct xs" and s: "set xs = {x}"
  shows "xs = [x]"
proof (cases xs)
  case Nil
  then show ?thesis using s by simp
next
  case (Cons y ys)
  have "y = x" using s Cons by auto
  moreover have "ys = []"
  proof (cases ys)
    case (Cons z zs)
    then have "z = x" using s \<open>xs = y # ys\<close> by auto
    then show ?thesis using d \<open>xs = y # ys\<close> \<open>y = x\<close> Cons by simp
  qed simp
  ultimately show ?thesis using Cons by simp
qed

lemma adjacency_weight: "adjacency g u = a \<Longrightarrow> map fst a = [v] \<Longrightarrow> weight g u v = Some w \<Longrightarrow> a = [(v, w)]"
  by (cases a) (auto simp: weight_def)

text \<open>
  C6. Take a node \<open>u\<close> with no edge to or from any other node (absent, or isolated, or
  holding only its own loop) and add the self-loop. On a directed graph \<^verbatim>\<open>Degree(u)\<close> is
  in-degree plus out-degree, which is 2; on an undirected graph \<open>u\<close> holds the single
  entry \<open>(u, w)\<close> and \<^verbatim>\<open>Degree(u)\<close> is 1.
\<close>

theorem self_loop_degree:
  assumes "wf_graph g"
    and "\<forall>v. v \<noteq> u \<longrightarrow> \<not> HasEdge g u v \<and> \<not> HasEdge g v u"
  shows "Degree (Directed_AddEdge g u u w) u
           = InDegree (Directed_AddEdge g u u w) u + OutDegree (Directed_AddEdge g u u w) u
       \<and> Degree (Directed_AddEdge g u u w) u = 2
       \<and> adjacency (Undirected_AddEdge g u u w) u = [(u, w)]
       \<and> Undirected_Degree (Undirected_AddEdge g u u w) u = 1"
proof -
  let ?d = "Directed_AddEdge g u u w" and ?n = "Undirected_AddEdge g u u w"
  have wfd: "wf_graph ?d" and wfn: "wf_graph ?n"
    using assms(1) by (simp_all add: wf_Directed_AddEdge wf_Undirected_AddEdge)
  have "{v. HasEdge ?d u v} = {u}" "{m. HasEdge ?d m u} = {u}" "{v. HasEdge ?n u v} = {u}"
    using assms(2) by (auto simp: HasEdge_weight weight_Directed_AddEdge weight_Undirected_AddEdge)
  then have s: "Successors ?d u = [u]" and p: "Predecessors ?d u = [u]" and n: "Successors ?n u = [u]"
    using distinct_Successors[OF wfd, of u] distinct_Predecessors[OF wfd, of u]
      distinct_Successors[OF wfn, of u]
    by (simp_all add: singleton_list set_Successors set_Predecessors[OF wfd])
  have "adjacency ?n u = [(u, w)]"
    using n by (intro adjacency_weight[OF refl]) (simp_all add: Successors_def weight_Undirected_AddEdge)
  then show ?thesis
    using s p n
    by (simp add: Degree_def InDegree_def OutDegree_def Undirected_Degree_def Undirected_Neighbors_def)
qed

theorem self_loop_degree_witness:
  "wf_graph [(Node (1::nat), [(Node 2, Fin 1)]), (Node 2, [(Node 1, Fin 1)]), (Node 3, [])]
   \<and> HasEdge [(Node (1::nat), [(Node 2, Fin 1)]), (Node 2, [(Node 1, Fin 1)]), (Node 3, [])] (Node 1) (Node 2)
   \<and> Degree (Directed_AddEdge [(Node (1::nat), [(Node 2, Fin 1)]), (Node 2, [(Node 1, Fin 1)]), (Node 3, [])]
        (Node 3) (Node 3) (Fin 1)) (Node 3) = 2
   \<and> adjacency (Undirected_AddEdge [(Node (1::nat), [(Node 2, Fin 1)]), (Node 2, [(Node 1, Fin 1)]), (Node 3, [])]
        (Node 3) (Node 3) (Fin 1)) (Node 3) = [(Node 3, Fin 1)]
   \<and> Undirected_Degree (Undirected_AddEdge [(Node (1::nat), [(Node 2, Fin 1)]), (Node 2, [(Node 1, Fin 1)]), (Node 3, [])]
        (Node 3) (Node 3) (Fin 1)) (Node 3) = 1"
proof -
  let ?g = "[(Node (1::nat), [(Node 2, Fin 1)]), (Node 2, [(Node 1, Fin 1)]), (Node 3, [])]"
  have w: "wf_graph ?g"
    by (simp add: wf_graph_def)
  have e: "HasEdge ?g (Node 1) (Node 2)"
    by (simp add: HasEdge_def)
  have h: "\<forall>v. v \<noteq> Node 3 \<longrightarrow> \<not> HasEdge ?g (Node 3) v \<and> \<not> HasEdge ?g v (Node 3)"
    by (simp add: HasEdge_def)
  show ?thesis
    using w e self_loop_degree[OF w h, of "Fin 1"]
    by simp
qed

text \<open>
  A node that already has an edge to another node: after \<^verbatim>\<open>AddEdge(1, 2, 1.0)\<close> and then
  the self-loop \<^verbatim>\<open>AddEdge(1, 1, 1.0)\<close>, the directed \<^verbatim>\<open>Degree\<close> of node 1 is 3, and in the
  undirected graph node 1 holds two adjacency entries and has \<^verbatim>\<open>Degree\<close> 2.
\<close>

theorem self_loop_degree_other_edge:
  "Degree (Directed_AddEdge (Directed_AddEdge NewDirectedGraph (Node (1::nat)) (Node 2) (Fin 1))
        (Node 1) (Node 1) (Fin 1)) (Node 1) = 3
   \<and> adjacency (Undirected_AddEdge (Undirected_AddEdge NewUndirectedGraph (Node (1::nat)) (Node 2) (Fin 1))
        (Node 1) (Node 1) (Fin 1)) (Node 1) = [(Node 2, Fin 1), (Node 1, Fin 1)]
   \<and> Undirected_Degree (Undirected_AddEdge (Undirected_AddEdge NewUndirectedGraph (Node (1::nat)) (Node 2) (Fin 1))
        (Node 1) (Node 1) (Fin 1)) (Node 1) = 2"
  by (simp add: NewDirectedGraph_def NewUndirectedGraph_def newGraphData_def Directed_AddEdge_def
      Undirected_AddEdge_def add_endpoints_def AddNode_def HasNode_def set_weight_def Degree_def
      InDegree_def OutDegree_def Predecessors_def Successors_def Nodes_def adjacency_def
      Undirected_Degree_def Undirected_Neighbors_def)

section \<open>Path finding (algorithms.go)\<close>

text \<open>
  \<^verbatim>\<open>Distances[K]\<close> and \<^verbatim>\<open>Paths[K]\<close> are Go maps. Reading a Go map at a missing key gives the
  zero value of the element type: \<open>0.0\<close> for a distance, and the node wrapping the zero
  value of \<open>K\<close> (the class \<open>default\<close>) for a predecessor.
\<close>

type_synonym 'k Distances = "'k Node \<rightharpoonup> float64"
type_synonym 'k Paths = "'k Node \<rightharpoonup> 'k Node"

definition dist_at :: "'k Distances \<Rightarrow> 'k Node \<Rightarrow> float64" where
  "dist_at distances n = (case distances n of None \<Rightarrow> 0 | Some d \<Rightarrow> d)"

definition prev_at :: "('k::default) Paths \<Rightarrow> 'k Node \<Rightarrow> 'k Node" where
  "prev_at previous n = (case previous n of None \<Rightarrow> Node default | Some m \<Rightarrow> m)"

instantiation nat :: default
begin
definition default_nat :: nat where "default_nat = 0"
instance ..
end

subsection \<open>Dijkstra\<close>

text \<open>
  The scan for the queue position with the smallest distance: \<^verbatim>\<open>min_index\<close> starts at 0,
  \<^verbatim>\<open>min_distance\<close> at infinity, and a position replaces them only when its distance is
  strictly smaller.
\<close>

definition scan_min :: "'k Distances \<Rightarrow> 'k Node list \<Rightarrow> nat \<times> float64" where
  "scan_min distances queue =
     foldl (\<lambda>(min_index, min_distance) i.
              if dist_at distances (queue ! i) < min_distance
              then (i, dist_at distances (queue ! i))
              else (min_index, min_distance))
           (0, PInf) [0..<length queue]"

text \<open>One pass of the inner loop body, for the adjacency entry \<open>(neighbor, weight)\<close>.\<close>

definition relax ::
  "'k Node \<Rightarrow> 'k Distances \<times> 'k Paths \<Rightarrow> 'k Node \<times> float64 \<Rightarrow> 'k Distances \<times> 'k Paths" where
  "relax current dp e =
     (let distances = fst dp; previous = snd dp; neighbor = fst e;
          alternative = fadd (dist_at distances current) (snd e)
      in if alternative < dist_at distances neighbor
         then (distances(neighbor \<mapsto> alternative), previous(neighbor \<mapsto> current))
         else (distances, previous))"

text \<open>\<^verbatim>\<open>slices.Delete(queue, i, i+1)\<close>.\<close>

definition delete_at :: "nat \<Rightarrow> 'a list \<Rightarrow> 'a list" where
  "delete_at i xs = take i xs @ drop (Suc i) xs"

lemma scan_min_index_prefix:
  "case foldl (\<lambda>(min_index, min_distance) i.
              if dist_at distances (queue ! i) < min_distance
              then (i, dist_at distances (queue ! i))
              else (min_index, min_distance))
           (0, PInf) [0..<k] of (mi, md) \<Rightarrow> mi = 0 \<or> mi < k"
  by (induction k) (auto split: prod.splits)

lemma scan_min_index: "queue \<noteq> [] \<Longrightarrow> fst (scan_min distances queue) < length queue"
  using scan_min_index_prefix[where distances = distances and queue = queue and k = "length queue"]
  by (auto simp: scan_min_def split: prod.splits)

text \<open>While no distance is negative or NaN, the scan finds a smallest one.\<close>

lemma scan_min_prefix:
  assumes "\<And>v. 0 \<le> dist_at distances v"
  shows "k \<le> length queue \<Longrightarrow>
   (case foldl (\<lambda>(min_index, min_distance) i.
              if dist_at distances (queue ! i) < min_distance
              then (i, dist_at distances (queue ! i))
              else (min_index, min_distance))
           (0, PInf) [0..<k] of (mi, md) \<Rightarrow>
      (mi = 0 \<and> md = PInf \<and> (\<forall>j<k. dist_at distances (queue ! j) = PInf))
      \<or> (mi < k \<and> md = dist_at distances (queue ! mi) \<and> md < PInf
          \<and> (\<forall>j<k. md \<le> dist_at distances (queue ! j))))"
proof (induction k)
  case 0
  then show ?case by simp
next
  case (Suc k)
  define x where "x = dist_at distances (queue ! k)"
  obtain mi md where f: "foldl (\<lambda>(min_index, min_distance) i.
              if dist_at distances (queue ! i) < min_distance
              then (i, dist_at distances (queue ! i))
              else (min_index, min_distance))
           (0, PInf) [0..<k] = (mi, md)"
    by (cases "foldl (\<lambda>(min_index, min_distance) i.
              if dist_at distances (queue ! i) < min_distance
              then (i, dist_at distances (queue ! i))
              else (min_index, min_distance))
           (0, PInf) [0..<k]")
  have IH: "(mi = 0 \<and> md = PInf \<and> (\<forall>j<k. dist_at distances (queue ! j) = PInf))
      \<or> (mi < k \<and> md = dist_at distances (queue ! mi) \<and> md < PInf
          \<and> (\<forall>j<k. md \<le> dist_at distances (queue ! j)))"
    using Suc f by simp
  have x0: "0 \<le> x"
    unfolding x_def by (rule assms)
  have md0: "0 \<le> md"
    using IH assms by (auto simp: zero_float64_def)
  show ?case
  proof (cases "x < md")
    case True
    have "x < PInf"
      using True le_PInf[OF md0] by (rule less_le_trans)
    moreover have "x \<le> dist_at distances (queue ! j)" if "j < Suc k" for j
    proof (cases "j = k")
      case True
      then show ?thesis by (simp add: x_def)
    next
      case False
      then have j: "j < k" using that by simp
      from IH show ?thesis
      proof
        assume "mi = 0 \<and> md = PInf \<and> (\<forall>j<k. dist_at distances (queue ! j) = PInf)"
        then show ?thesis using j le_PInf[OF x0] by simp
      next
        assume "mi < k \<and> md = dist_at distances (queue ! mi) \<and> md < PInf
          \<and> (\<forall>j<k. md \<le> dist_at distances (queue ! j))"
        then have "md \<le> dist_at distances (queue ! j)" using j by blast
        with True show ?thesis by simp
      qed
    qed
    ultimately show ?thesis
      using True by (simp add: f x_def[symmetric])
  next
    case False
    then have le: "md \<le> x"
      using float64_total[OF md0 x0] by simp
    from IH have "(mi = 0 \<and> md = PInf \<and> (\<forall>j<Suc k. dist_at distances (queue ! j) = PInf))
      \<or> (mi < Suc k \<and> md = dist_at distances (queue ! mi) \<and> md < PInf
          \<and> (\<forall>j<Suc k. md \<le> dist_at distances (queue ! j)))"
    proof
      assume a: "mi = 0 \<and> md = PInf \<and> (\<forall>j<k. dist_at distances (queue ! j) = PInf)"
      then have "x = PInf" using le PInf_le by simp
      then show ?thesis using a by (auto simp: less_Suc_eq x_def)
    next
      assume a: "mi < k \<and> md = dist_at distances (queue ! mi) \<and> md < PInf
          \<and> (\<forall>j<k. md \<le> dist_at distances (queue ! j))"
      then show ?thesis using le by (auto simp: less_Suc_eq x_def)
    qed
    then show ?thesis
      using False by (simp add: f x_def[symmetric])
  qed
qed

lemma scan_min_least:
  assumes "\<And>v. 0 \<le> dist_at distances v" and "x \<in> set queue"
  shows "dist_at distances (queue ! fst (scan_min distances queue)) \<le> dist_at distances x"
proof -
  obtain j where j: "j < length queue" "x = queue ! j"
    using assms(2) by (auto simp: in_set_conv_nth)
  show ?thesis
    using scan_min_prefix[of distances "length queue" queue, OF assms(1)] j
      le_PInf[OF assms(1)]
    by (auto simp: scan_min_def split: prod.splits)
qed

lemma length_delete_at: "i < length xs \<Longrightarrow> length (delete_at i xs) < length xs"
  by (simp add: delete_at_def)

text \<open>
  The outer loop of \<^verbatim>\<open>Dijkstra\<close>. Each round takes one node out of the queue, so the
  loop ends after as many rounds as the queue is long.
\<close>

function dijkstra_loop ::
  "'k graphData \<Rightarrow> 'k Node list \<Rightarrow> 'k Distances \<times> 'k Paths \<Rightarrow> 'k Distances \<times> 'k Paths" where
  "dijkstra_loop g queue dp =
     (if queue = [] then dp
      else let min_index = fst (scan_min (fst dp) queue);
               current = queue ! min_index
           in dijkstra_loop g (delete_at min_index queue)
                (foldl (relax current) dp (adjacency g current)))"
  by pat_completeness auto
termination
  by (relation "measure (\<lambda>(g, queue, dp). length queue)")
     (simp_all add: length_delete_at scan_min_index)

text \<open>
  \<^verbatim>\<open>Dijkstra\<close>: every node of the graph starts at distance infinity and in the queue, in
  the order \<^verbatim>\<open>range\<close> enumerates them; then the start node gets distance 0 and itself as
  predecessor, whether it is a node of the graph or not.
\<close>

definition Dijkstra :: "'k graphData \<Rightarrow> 'k Node \<Rightarrow> 'k Distances \<times> 'k Paths" where
  "Dijkstra g start =
     (let distances = foldl (\<lambda>d node. d(node \<mapsto> PInf)) Map.empty (map fst g);
          queue = map fst g
      in dijkstra_loop g queue (distances(start \<mapsto> 0), Map.empty(start \<mapsto> start)))"

text \<open>
  The loop that walks the predecessor links back from the target. Nothing in the loop
  bounds it, so it is a partial function: \<open>None\<close> is a walk that never reaches \<open>start\<close>.
\<close>

partial_function (option) walk_back ::
  "('k::default) Paths \<Rightarrow> 'k Node \<Rightarrow> 'k Node \<Rightarrow> 'k Node list \<Rightarrow> 'k Node list option" where
  "walk_back previous start current path =
     (if current \<noteq> start
      then walk_back previous start (prev_at previous current) (path @ [prev_at previous current])
      else Some path)"

text \<open>
  \<^verbatim>\<open>DijkstraTo\<close> has no branch for \<open>start = target\<close>. The result is \<open>None\<close> only when
  the walk back does not end.
\<close>

definition DijkstraTo ::
  "('k::default) graphData \<Rightarrow> 'k Node \<Rightarrow> 'k Node \<Rightarrow> ('k Node list \<times> nat \<times> float64) option" where
  "DijkstraTo g start target =
     (let (distances, previous) = Dijkstra g start
      in if previous target = None then Some ([], 0, PInf)
         else case walk_back previous start target [target] of
                None \<Rightarrow> None
              | Some path \<Rightarrow> Some (rev path, length path, dist_at distances target))"

declare dijkstra_loop.simps [simp del]

text \<open>The precondition the source states for \<^verbatim>\<open>Dijkstra\<close> and does not check.\<close>

definition nonneg_weights :: "'k graphData \<Rightarrow> bool" where
  "nonneg_weights g = list_all (\<lambda>(n, a). list_all (\<lambda>(v, w). 0 \<le> w) a) g"

lemma in_adjacency: "(v, w) \<in> set (adjacency g c) \<Longrightarrow> \<exists>a. (c, a) \<in> set g \<and> (v, w) \<in> set a"
proof (cases "map_of g c")
  case None
  assume "(v, w) \<in> set (adjacency g c)"
  then show ?thesis using None by (simp add: adjacency_def)
next
  case (Some a)
  assume "(v, w) \<in> set (adjacency g c)"
  then show ?thesis using Some map_of_SomeD[OF Some] by (auto simp: adjacency_def)
qed

lemma nonneg_adjacency: "nonneg_weights g \<Longrightarrow> (v, w) \<in> set (adjacency g c) \<Longrightarrow> 0 \<le> w"
  by (fastforce simp: nonneg_weights_def list_all_iff dest: in_adjacency)

lemma dijkstra_loop_rule:
  assumes "I queue dp"
    and "\<And>queue dp. I queue dp \<Longrightarrow> queue \<noteq> [] \<Longrightarrow>
           I (delete_at (fst (scan_min (fst dp) queue)) queue)
             (foldl (relax (queue ! fst (scan_min (fst dp) queue))) dp
                (adjacency g (queue ! fst (scan_min (fst dp) queue))))"
  shows "I [] (dijkstra_loop g queue dp)"
  using assms
proof (induction g queue dp rule: dijkstra_loop.induct)
  case (1 g queue dp)
  show ?case
  proof (cases "queue = []")
    case True
    then show ?thesis using "1.prems"(1) by (simp add: dijkstra_loop.simps)
  next
    case False
    have unfold: "dijkstra_loop g queue dp =
        dijkstra_loop g (delete_at (fst (scan_min (fst dp) queue)) queue)
          (foldl (relax (queue ! fst (scan_min (fst dp) queue))) dp
             (adjacency g (queue ! fst (scan_min (fst dp) queue))))"
      using False by (subst dijkstra_loop.simps) (simp add: Let_def)
    have "I (delete_at (fst (scan_min (fst dp) queue)) queue)
             (foldl (relax (queue ! fst (scan_min (fst dp) queue))) dp
                (adjacency g (queue ! fst (scan_min (fst dp) queue))))"
      by (rule "1.prems"(2)[OF "1.prems"(1) False])
    then show ?thesis
      unfolding unfold by (rule "1.IH"[OF False refl refl]) (rule "1.prems"(2))
  qed
qed

lemma foldl_invariant:
  "P s \<Longrightarrow> (\<And>s x. P s \<Longrightarrow> x \<in> set xs \<Longrightarrow> P (f s x)) \<Longrightarrow> P (foldl f s xs)"
  by (induction xs arbitrary: s) auto

lemma dijkstra_loop_relax_invariant:
  assumes "P dp"
    and "\<And>c dp e. P dp \<Longrightarrow> e \<in> set (adjacency g c) \<Longrightarrow> P (relax c dp e)"
  shows "P (dijkstra_loop g queue dp)"
  by (rule dijkstra_loop_rule[where I = "\<lambda>q. P" and queue = queue, OF assms(1)])
     (rule foldl_invariant, assumption, rule assms(2))

lemma relax_keeps_previous: "snd dp n \<noteq> None \<Longrightarrow> snd (relax c dp e) n \<noteq> None"
  by (simp add: relax_def Let_def)

lemma Dijkstra_previous_start: "snd (Dijkstra g start) start \<noteq> None"
  unfolding Dijkstra_def Let_def
  by (rule dijkstra_loop_relax_invariant) (simp_all add: relax_keeps_previous)

lemma walk_back_at_start: "walk_back previous start start path = Some path"
  by (subst walk_back.simps) simp

lemma DijkstraTo_self_path:
  "DijkstraTo g start start = Some ([start], 1, dist_at (fst (Dijkstra g start)) start)"
  using Dijkstra_previous_start[of g start]
  by (auto simp: DijkstraTo_def walk_back_at_start case_prod_unfold Let_def)

lemma relax_nonneg:
  assumes "\<forall>n. 0 \<le> dist_at (fst dp) n" "dist_at (fst dp) start = 0" "0 \<le> snd e"
  shows "(\<forall>n. 0 \<le> dist_at (fst (relax c dp e)) n) \<and> dist_at (fst (relax c dp e)) start = 0"
proof -
  have "0 \<le> fadd (dist_at (fst dp) c) (snd e)"
    using assms by (simp add: fadd_nonneg)
  then have "\<not> fadd (dist_at (fst dp) c) (snd e) < 0"
    by (simp add: less_le_not_le)
  then show ?thesis
    using assms(1,2) \<open>0 \<le> fadd (dist_at (fst dp) c) (snd e)\<close>
    by (cases "fst e = start") (auto simp: relax_def Let_def dist_at_def)
qed

lemma Dijkstra_start_zero:
  assumes "nonneg_weights g"
  shows "dist_at (fst (Dijkstra g start)) start = 0"
proof -
  let ?P = "\<lambda>dp. (\<forall>n. 0 \<le> dist_at (fst dp) n) \<and> dist_at (fst dp) start = 0"
  have init: "0 \<le> dist_at (foldl (\<lambda>d node. d(node \<mapsto> PInf)) m ns) n"
    if "0 \<le> dist_at m n" for m :: "'a Distances" and ns n
    using that
  proof (induction ns arbitrary: m)
    case (Cons a ns)
    show ?case
      unfolding foldl_Cons
      by (rule Cons.IH) (use Cons.prems in \<open>auto simp: dist_at_def zero_float64_def\<close>)
  qed simp
  have init0: "0 \<le> dist_at (foldl (\<lambda>d node. d(node \<mapsto> PInf)) Map.empty ns) n"
    for ns and n :: "'a Node"
    by (rule init) (simp add: dist_at_def)
  have "?P (Dijkstra g start)"
    unfolding Dijkstra_def Let_def
  proof (rule dijkstra_loop_relax_invariant)
    show "?P ((foldl (\<lambda>d node. d(node \<mapsto> PInf)) Map.empty (map fst g))(start \<mapsto> 0), [start \<mapsto> start])"
      using init0[of "map fst g"] by (simp add: dist_at_def)
  next
    fix c e and dp :: "'a Distances \<times> 'a Paths"
    assume "?P dp" "e \<in> set (adjacency g c)"
    then show "?P (relax c dp e)"
      using relax_nonneg[of dp start e c] nonneg_adjacency[OF assms, of "fst e" "snd e" c] by simp
  qed
  then show ?thesis by simp
qed

text \<open>
  C7. For every graph \<^verbatim>\<open>DijkstraTo(start, start)\<close> returns the path \<open>[start]\<close> with length 1:
  the entry \<open>previous[start] = start\<close> written before the loop is never removed, and the
  walk back stops at once, so the result is never the unreachable one. The cost is the
  final \<open>distances[start]\<close>, which is 0 when no edge weight is negative.
\<close>

theorem DijkstraTo_self:
  "(\<exists>c. DijkstraTo g start start = Some ([start], 1, c))
   \<and> (nonneg_weights g \<longrightarrow> DijkstraTo g start start = Some ([start], 1, 0))"
  by (simp add: DijkstraTo_self_path Dijkstra_start_zero)

lemmas eval_defs = DijkstraTo_def Dijkstra_def scan_min_def delete_at_def relax_def adjacency_def dist_at_def prev_at_def walk_back.simps zero_float64_def Let_def dijkstra_loop.simps

theorem DijkstraTo_self_witness:
  "nonneg_weights [(Node (1::nat), [(Node 2, Fin 1)]), (Node 2, [(Node 1, Fin 1)])]
   \<and> DijkstraTo [(Node (1::nat), [(Node 2, Fin 1)]), (Node 2, [(Node 1, Fin 1)])] (Node 1) (Node 1)
       = Some ([Node 1], 1, 0)"
proof -
  have n: "nonneg_weights [(Node (1::nat), [(Node 2, Fin 1)]), (Node 2, [(Node 1, Fin 1)])]"
    by (simp add: nonneg_weights_def zero_float64_def)
  show ?thesis
    using n DijkstraTo_self[of "[(Node (1::nat), [(Node 2, Fin 1)]), (Node 2, [(Node 1, Fin 1)])]" "Node 1"]
    by simp
qed

text \<open>
  A self-loop of weight \<open>-1\<close> at the start node: relaxing it lowers \<open>distances[start]\<close>
  below 0, and that is the cost returned.
\<close>

theorem DijkstraTo_self_negative_loop:
  "DijkstraTo [(Node (1::nat), [(Node 1, Fin (- 1))])] (Node 1) (Node 1) = Some ([Node 1], 1, Fin (- 1))
   \<and> DijkstraTo [(Node (1::nat), [(Node 1, Fin (- 1))])] (Node 1) (Node 1) \<noteq> Some ([Node 1], 1, Fin 0)"
  by (simp add: eval_defs rnd_Ints)

subsection \<open>Breadth-first search\<close>

text \<open>
  The local variables of \<^verbatim>\<open>BFS\<close>. Of \<^verbatim>\<open>visited map[Node[K]]bool\<close> only the presence of a
  key is ever read, so it is a set.
\<close>

record 'k bfs_state =
  bfs_queue :: "'k Node list"
  bfs_visited :: "'k Node set"
  bfs_distances :: "'k Distances"
  bfs_previous :: "'k Paths"

text \<open>The body of the inner loop, for one neighbour of \<open>current\<close>.\<close>

definition bfs_visit :: "'k Node \<Rightarrow> 'k bfs_state \<Rightarrow> 'k Node \<Rightarrow> 'k bfs_state" where
  "bfs_visit current st neighbor =
     (if neighbor \<in> bfs_visited st then st
      else st\<lparr>bfs_visited := insert neighbor (bfs_visited st),
              bfs_previous := (bfs_previous st)(neighbor \<mapsto> current),
              bfs_distances :=
                (bfs_distances st)(neighbor \<mapsto> dist_at (bfs_distances st) current + Fin 1),
              bfs_queue := bfs_queue st @ [neighbor]\<rparr>)"

lemma visited_foldl_bfs_visit:
  "bfs_visited (foldl (bfs_visit c) st ns) = bfs_visited st \<union> set ns"
  by (induction ns arbitrary: st) (auto simp: bfs_visit_def)

lemma foldl_bfs_visit_all_visited:
  "set ns \<subseteq> bfs_visited st \<Longrightarrow> foldl (bfs_visit c) st ns = st"
  by (induction ns arbitrary: st) (auto simp: bfs_visit_def)

text \<open>
  The outer loop of \<^verbatim>\<open>BFS\<close> ends: a round either visits a node that is a neighbour key
  of the graph and was not visited before, or only shortens the queue.
\<close>

definition neighbor_keys :: "'k graphData \<Rightarrow> 'k Node set" where
  "neighbor_keys g = set (concat (map (\<lambda>(n, a). map fst a) g))"

lemma Successors_neighbor_keys: "set (Successors g c) \<subseteq> neighbor_keys g"
proof (cases "map_of g c")
  case None
  then show ?thesis by (simp add: Successors_def adjacency_def)
next
  case (Some a)
  then have "(c, a) \<in> set g" by (rule map_of_SomeD)
  then show ?thesis
    using Some by (force simp: Successors_def adjacency_def neighbor_keys_def)
qed

lemma bfs_step_decreases:
  fixes g :: "'k graphData"
  assumes "bfs_queue st = c # rest"
  defines "st' \<equiv> foldl (bfs_visit c) (st\<lparr>bfs_queue := rest\<rparr>) (Successors g c)"
  shows "card (neighbor_keys g - bfs_visited st') < card (neighbor_keys g - bfs_visited st)
       \<or> (card (neighbor_keys g - bfs_visited st') = card (neighbor_keys g - bfs_visited st)
          \<and> length (bfs_queue st') < length (bfs_queue st))"
proof (cases "set (Successors g c) \<subseteq> bfs_visited st")
  case True
  then have "st' = st\<lparr>bfs_queue := rest\<rparr>"
    unfolding st'_def by (intro foldl_bfs_visit_all_visited) simp
  then show ?thesis using assms(1) by simp
next
  case False
  then obtain x where x: "x \<in> set (Successors g c)" "x \<notin> bfs_visited st" by blast
  have fin: "finite (neighbor_keys g - bfs_visited st)"
    unfolding neighbor_keys_def by (rule finite_Diff) (rule finite_set)
  have v: "bfs_visited st' = bfs_visited st \<union> set (Successors g c)"
    by (simp add: st'_def visited_foldl_bfs_visit)
  have "x \<in> neighbor_keys g"
    using x(1) Successors_neighbor_keys by blast
  then have "neighbor_keys g - bfs_visited st' \<subset> neighbor_keys g - bfs_visited st"
    using x v by blast
  then show ?thesis
    using fin by (simp add: psubset_card_mono)
qed

function bfs_loop :: "'k graphData \<Rightarrow> 'k bfs_state \<Rightarrow> 'k bfs_state" where
  "bfs_loop g st =
     (case bfs_queue st of
        [] \<Rightarrow> st
      | current # rest \<Rightarrow>
          bfs_loop g (foldl (bfs_visit current) (st\<lparr>bfs_queue := rest\<rparr>) (Successors g current)))"
  by pat_completeness auto
termination
proof (relation "measures [\<lambda>(g, st). card (neighbor_keys g - bfs_visited st),
                           \<lambda>(g, st). length (bfs_queue st)]")
  fix g :: "'k graphData" and st :: "'k bfs_state" and c rest
  assume "bfs_queue st = c # rest"
  from bfs_step_decreases[OF this, of g]
  show "((g, foldl (bfs_visit c) (st\<lparr>bfs_queue := rest\<rparr>) (Successors g c)), (g, st))
          \<in> measures [\<lambda>(g, st). card (neighbor_keys g - bfs_visited st),
                       \<lambda>(g, st). length (bfs_queue st)]"
    by auto
qed simp

declare bfs_loop.simps [simp del]

definition BFS :: "'k graphData \<Rightarrow> 'k Node \<Rightarrow> 'k Distances \<times> 'k Paths" where
  "BFS g start =
     (let st = bfs_loop g \<lparr>bfs_queue = [start], bfs_visited = {start},
                           bfs_distances = Map.empty(start \<mapsto> 0),
                           bfs_previous = Map.empty(start \<mapsto> start)\<rparr>
      in (bfs_distances st, bfs_previous st))"

text \<open>\<^verbatim>\<open>BFSTo\<close>, with its early return for \<open>start = target\<close>.\<close>

definition BFSTo ::
  "('k::default) graphData \<Rightarrow> 'k Node \<Rightarrow> 'k Node \<Rightarrow> ('k Node list \<times> nat \<times> float64) option" where
  "BFSTo g start target =
     (if start = target then Some ([start], 1, 0)
      else let (distances, previous) = BFS g start
           in if previous target = None then Some ([], 0, PInf)
              else case walk_back previous start target [target] of
                     None \<Rightarrow> None
                   | Some path \<Rightarrow> Some (rev path, length path, dist_at distances target))"

lemmas bfs_eval = BFSTo_def BFS_def bfs_loop.simps bfs_visit_def Successors_def adjacency_def dist_at_def prev_at_def walk_back.simps zero_float64_def Let_def

subsection \<open>Paths\<close>

text \<open>
  A path is a non-empty node sequence in which every step follows an adjacency entry.
  Its cost is the \<^verbatim>\<open>float64\<close> obtained by starting from \<^verbatim>\<open>0.0\<close> and adding the stored
  weights one after the other in path order, every sum rounded: the value that
  \<^verbatim>\<open>Dijkstra\<close> builds up in \<^verbatim>\<open>distances\<close> when it relaxes the edges of the path in turn.
\<close>

fun is_path :: "'k graphData \<Rightarrow> 'k Node list \<Rightarrow> bool" where
  "is_path g [] = False"
| "is_path g [x] = True"
| "is_path g (x # y # r) = (HasEdge g x y \<and> is_path g (y # r))"

definition path_between :: "'k graphData \<Rightarrow> 'k Node \<Rightarrow> 'k Node \<Rightarrow> 'k Node list \<Rightarrow> bool" where
  "path_between g s t p = (is_path g p \<and> hd p = s \<and> last p = t)"

fun accumulate :: "'k graphData \<Rightarrow> float64 \<Rightarrow> 'k Node list \<Rightarrow> float64" where
  "accumulate g acc (x # y # r) =
     accumulate g (fadd acc (case weight g x y of None \<Rightarrow> 0 | Some w \<Rightarrow> w)) (y # r)"
| "accumulate g acc p = acc"

definition path_cost :: "'k graphData \<Rightarrow> 'k Node list \<Rightarrow> float64" where
  "path_cost g p = accumulate g 0 p"

text \<open>
  The predecessor links from a node back to the start, listed from the node: what the
  loop of \<^verbatim>\<open>BFSTo\<close> and \<^verbatim>\<open>DijkstraTo\<close> collects before reversing.
\<close>

fun chain :: "'k Paths \<Rightarrow> 'k Node \<Rightarrow> 'k Node list \<Rightarrow> bool" where
  "chain previous s [] = False"
| "chain previous s [v] = (v = s)"
| "chain previous s (v # u # r) = (v \<noteq> s \<and> previous v = Some u \<and> chain previous s (u # r))"

lemma walk_back_chain:
  "chain previous s (c # r) \<Longrightarrow> walk_back previous s c acc = Some (acc @ r)"
proof (induction r arbitrary: c acc)
  case Nil
  then show ?case by (subst walk_back.simps) simp
next
  case (Cons u r)
  then have "c \<noteq> s" "prev_at previous c = u" "chain previous s (u # r)"
    by (simp_all add: prev_at_def)
  then show ?case
    using Cons.IH[of u "acc @ [u]"] by (subst walk_back.simps) simp
qed

lemma chain_cong:
  "(\<And>v. v \<in> set l \<Longrightarrow> previous' v = previous v) \<Longrightarrow> chain previous' s l = chain previous s l"
  by (induction previous s l rule: chain.induct) auto

lemma chain_start: "chain previous s (s # r) \<Longrightarrow> r = []"
  by (cases r) auto

lemma is_path_snoc: "is_path g p \<Longrightarrow> HasEdge g (last p) w \<Longrightarrow> is_path g (p @ [w])"
  by (induction g p rule: is_path.induct) auto

lemma foldl_bfs_visit_eq:
  assumes "distinct ns" "c \<in> bfs_visited st"
  shows "foldl (bfs_visit c) st ns =
     st\<lparr>bfs_visited := bfs_visited st \<union> set ns,
        bfs_previous := (\<lambda>v. if v \<in> set ns \<and> v \<notin> bfs_visited st then Some c
                            else bfs_previous st v),
        bfs_distances := (\<lambda>v. if v \<in> set ns \<and> v \<notin> bfs_visited st
                             then Some (dist_at (bfs_distances st) c + Fin 1)
                             else bfs_distances st v),
        bfs_queue := bfs_queue st @ filter (\<lambda>v. v \<notin> bfs_visited st) ns\<rparr>"
  using assms
proof (induction ns arbitrary: st)
  case Nil
  then show ?case by simp
next
  case (Cons a ns)
  show ?case
  proof (cases "a \<in> bfs_visited st")
    case True
    then have "bfs_visit c st a = st" by (simp add: bfs_visit_def)
    then show ?thesis
      using Cons.IH[of st] Cons.prems True
      by (auto simp: fun_eq_iff insert_absorb intro!: bfs_state.equality)
  next
    case False
    let ?V = "bfs_visited st"
    let ?st1 = "st\<lparr>bfs_visited := insert a ?V,
              bfs_previous := (bfs_previous st)(a \<mapsto> c),
              bfs_distances := (bfs_distances st)(a \<mapsto> dist_at (bfs_distances st) c + Fin 1),
              bfs_queue := bfs_queue st @ [a]\<rparr>"
    have st1: "bfs_visit c st a = ?st1" using False by (simp add: bfs_visit_def)
    have ne: "a \<noteq> c" using False Cons.prems(2) by auto
    have an: "a \<notin> set ns" and dn: "distinct ns" using Cons.prems(1) by auto
    have f: "filter (\<lambda>v. v \<noteq> a \<and> v \<notin> ?V) ns = filter (\<lambda>v. v \<notin> ?V) ns"
      using an by (auto intro: filter_cong)
    have d: "dist_at ((bfs_distances st)(a \<mapsto> x)) c = dist_at (bfs_distances st) c" for x
      using ne by (simp add: dist_at_def)
    have c1: "c \<in> bfs_visited ?st1" using Cons.prems(2) by simp
    have "foldl (bfs_visit c) st (a # ns) = foldl (bfs_visit c) ?st1 ns"
      by (simp add: st1)
    also have "\<dots> = ?st1\<lparr>bfs_visited := bfs_visited ?st1 \<union> set ns,
        bfs_previous := (\<lambda>v. if v \<in> set ns \<and> v \<notin> bfs_visited ?st1 then Some c
                            else bfs_previous ?st1 v),
        bfs_distances := (\<lambda>v. if v \<in> set ns \<and> v \<notin> bfs_visited ?st1
                             then Some (dist_at (bfs_distances ?st1) c + Fin 1)
                             else bfs_distances ?st1 v),
        bfs_queue := bfs_queue ?st1 @ filter (\<lambda>v. v \<notin> bfs_visited ?st1) ns\<rparr>"
      by (rule Cons.IH[OF dn c1])
    also have "\<dots> = st\<lparr>bfs_visited := ?V \<union> set (a # ns),
        bfs_previous := (\<lambda>v. if v \<in> set (a # ns) \<and> v \<notin> ?V then Some c
                            else bfs_previous st v),
        bfs_distances := (\<lambda>v. if v \<in> set (a # ns) \<and> v \<notin> ?V
                             then Some (dist_at (bfs_distances st) c + Fin 1)
                             else bfs_distances st v),
        bfs_queue := bfs_queue st @ filter (\<lambda>v. v \<notin> ?V) (a # ns)\<rparr>"
      using False an by (intro bfs_state.equality) (auto simp: f d fun_eq_iff)
    finally show ?thesis .
  qed
qed

subsection \<open>Breadth-first search finds shortest paths\<close>

text \<open>The hop count stored for a node, read back as a natural number.\<close>

definition hops :: "'k Distances \<Rightarrow> 'k Node \<Rightarrow> nat" where
  "hops d v = (case d v of Some (Fin x) \<Rightarrow> nat \<lfloor>x\<rfloor> | _ \<Rightarrow> 0)"

lemma hops_real: "d v = Some (Fin (real n)) \<Longrightarrow> hops d v = n"
  by (simp add: hops_def)

lemma sorted_map_const: "(\<And>x. x \<in> set xs \<Longrightarrow> f x = (c::nat)) \<Longrightarrow> sorted (map f xs)"
  by (induction xs) auto

text \<open>
  What holds each time the outer loop tests its condition: every visited node has a
  predecessor chain inside the visited set that is a path of the graph and as long as
  its recorded distance; the queue is ordered by distance and spans at most two
  consecutive distances; nodes already taken from the queue have all their successors
  visited; and an edge between visited nodes raises the distance by at most one.
\<close>

definition bfs_inv :: "'k graphData \<Rightarrow> 'k Node \<Rightarrow> 'k bfs_state \<Rightarrow> bool" where
  "bfs_inv g s st \<longleftrightarrow>
     s \<in> bfs_visited st \<and> set (bfs_queue st) \<subseteq> bfs_visited st \<and>
     (\<forall>v. (v \<in> bfs_visited st) = (bfs_previous st v \<noteq> None)) \<and>
     (\<forall>v \<in> bfs_visited st. \<exists>r. chain (bfs_previous st) s (v # r) \<and> set r \<subseteq> bfs_visited st
          \<and> is_path g (rev (v # r)) \<and> bfs_distances st v = Some (Fin (real (length r)))) \<and>
     sorted (map (hops (bfs_distances st)) (bfs_queue st)) \<and>
     (\<forall>v \<in> bfs_visited st. \<forall>x \<in> set (bfs_queue st).
          hops (bfs_distances st) v \<le> hops (bfs_distances st) x + 1) \<and>
     (\<forall>v \<in> bfs_visited st - set (bfs_queue st). \<forall>w. HasEdge g v w \<longrightarrow> w \<in> bfs_visited st) \<and>
     (\<forall>v \<in> bfs_visited st. \<forall>w \<in> bfs_visited st.
          HasEdge g v w \<longrightarrow> hops (bfs_distances st) w \<le> hops (bfs_distances st) v + 1)"

lemma bfs_inv_init:
  "bfs_inv g s \<lparr>bfs_queue = [s], bfs_visited = {s}, bfs_distances = Map.empty(s \<mapsto> 0),
                 bfs_previous = Map.empty(s \<mapsto> s)\<rparr>"
  unfolding bfs_inv_def
  by (auto simp: zero_float64_def intro!: exI[of _ "[]"])

lemma bfs_inv_step:
  assumes wf: "wf_graph g" and inv: "bfs_inv g s st" and q: "bfs_queue st = cur # rest"
  shows "bfs_inv g s (foldl (bfs_visit cur) (st\<lparr>bfs_queue := rest\<rparr>) (Successors g cur))"
proof -
  define V where "V = bfs_visited st"
  define d where "d = bfs_distances st"
  define pr where "pr = bfs_previous st"
  define N where "N = set (Successors g cur)"
  define new where "new = filter (\<lambda>v. v \<notin> V) (Successors g cur)"
  define st' where "st' = foldl (bfs_visit cur) (st\<lparr>bfs_queue := rest\<rparr>) (Successors g cur)"
  note defs = V_def d_def pr_def
  have sV: "s \<in> V" and QV: "set (cur # rest) \<subseteq> V"
    and dom: "\<And>v. (v \<in> V) = (pr v \<noteq> None)"
    and ch: "\<And>v. v \<in> V \<Longrightarrow> \<exists>r. chain pr s (v # r) \<and> set r \<subseteq> V
          \<and> is_path g (rev (v # r)) \<and> d v = Some (Fin (real (length r)))"
    and srt: "sorted (map (hops d) (cur # rest))"
    and span: "\<And>v x. v \<in> V \<Longrightarrow> x \<in> set (cur # rest) \<Longrightarrow> hops d v \<le> hops d x + 1"
    and closed: "\<And>v w. v \<in> V \<Longrightarrow> v \<notin> set (cur # rest) \<Longrightarrow> HasEdge g v w \<Longrightarrow> w \<in> V"
    and tri: "\<And>v w. v \<in> V \<Longrightarrow> w \<in> V \<Longrightarrow> HasEdge g v w \<Longrightarrow> hops d w \<le> hops d v + 1"
    using inv unfolding bfs_inv_def defs q by blast+
  have curV: "cur \<in> V" using QV by simp
  obtain rc where rc: "chain pr s (cur # rc)" "set rc \<subseteq> V" "is_path g (rev (cur # rc))"
      "d cur = Some (Fin (real (length rc)))"
    using ch[OF curV] by blast
  have hc: "hops d cur = length rc" using rc(4) by (rule hops_real)
  have distc: "dist_at d cur + Fin 1 = Fin (real (Suc (length rc)))"
    using rc(4) by (simp add: dist_at_def add.commute)
  have eq: "st' = st\<lparr>bfs_queue := rest\<rparr>\<lparr>bfs_visited := bfs_visited (st\<lparr>bfs_queue := rest\<rparr>) \<union> set (Successors g cur),
        bfs_previous := (\<lambda>v. if v \<in> set (Successors g cur) \<and> v \<notin> bfs_visited (st\<lparr>bfs_queue := rest\<rparr>) then Some cur
                            else bfs_previous (st\<lparr>bfs_queue := rest\<rparr>) v),
        bfs_distances := (\<lambda>v. if v \<in> set (Successors g cur) \<and> v \<notin> bfs_visited (st\<lparr>bfs_queue := rest\<rparr>)
                             then Some (dist_at (bfs_distances (st\<lparr>bfs_queue := rest\<rparr>)) cur + Fin 1)
                             else bfs_distances (st\<lparr>bfs_queue := rest\<rparr>) v),
        bfs_queue := bfs_queue (st\<lparr>bfs_queue := rest\<rparr>) @ filter (\<lambda>v. v \<notin> bfs_visited (st\<lparr>bfs_queue := rest\<rparr>)) (Successors g cur)\<rparr>"
    unfolding st'_def
    by (rule foldl_bfs_visit_eq[OF distinct_Successors[OF wf]]) (use curV in \<open>simp add: V_def\<close>)
  have V': "bfs_visited st' = V \<union> N" and Q': "bfs_queue st' = rest @ new"
    by (simp_all add: eq defs N_def new_def)
  have pr': "bfs_previous st' v = (if v \<in> N \<and> v \<notin> V then Some cur else pr v)" for v
    by (simp add: eq defs N_def)
  have d': "bfs_distances st' v = (if v \<in> N \<and> v \<notin> V then Some (Fin (real (Suc (length rc)))) else d v)" for v
    using distc by (simp add: eq defs N_def)
  have h': "hops (bfs_distances st') v = (if v \<in> N \<and> v \<notin> V then Suc (length rc) else hops d v)" for v
    by (auto simp: d' hops_real hops_def)
  have N: "(w \<in> N) = HasEdge g cur w" for w
    by (simp add: N_def set_Successors)
  have new: "set new = N - V"
    by (auto simp: new_def N_def)
  have restV: "set rest \<subseteq> V" using QV by simp
  have le_cur: "hops d cur \<le> hops d x" if "x \<in> set rest" for x
    using srt that by simp
  have c1: "s \<in> bfs_visited st'" using sV V' by simp
  have c2: "set (bfs_queue st') \<subseteq> bfs_visited st'"
    using restV new by (auto simp: V' Q')
  have c3: "(v \<in> bfs_visited st') = (bfs_previous st' v \<noteq> None)" for v
    using dom[of v] by (auto simp: V' pr')
  have c4: "\<exists>r. chain (bfs_previous st') s (v # r) \<and> set r \<subseteq> bfs_visited st'
          \<and> is_path g (rev (v # r)) \<and> bfs_distances st' v = Some (Fin (real (length r)))"
    if "v \<in> bfs_visited st'" for v
  proof (cases "v \<in> V")
    case True
    obtain r where r: "chain pr s (v # r)" "set r \<subseteq> V" "is_path g (rev (v # r))"
        "d v = Some (Fin (real (length r)))"
      using ch[OF True] by blast
    have "chain (bfs_previous st') s (v # r) = chain pr s (v # r)"
      using True r(2) by (intro chain_cong) (auto simp: pr')
    then show ?thesis
      using r True by (intro exI[of _ r]) (auto simp: V' d')
  next
    case False
    then have vN: "v \<in> N" using that by (simp add: V')
    have "chain (bfs_previous st') s (cur # rc) = chain pr s (cur # rc)"
      using curV rc(2) by (intro chain_cong) (auto simp: pr')
    moreover have "v \<noteq> s" using False sV by auto
    moreover have "is_path g (rev (cur # rc) @ [v])"
      using rc(3) vN by (intro is_path_snoc) (simp_all add: N)
    ultimately show ?thesis
      using rc False vN curV
      by (intro exI[of _ "cur # rc"]) (auto simp: V' d' pr')
  qed
  have c5: "sorted (map (hops (bfs_distances st')) (bfs_queue st'))"
  proof -
    have a: "map (hops (bfs_distances st')) rest = map (hops d) rest"
      using restV by (auto simp: h')
    have b: "sorted (map (hops (bfs_distances st')) new)"
      by (rule sorted_map_const[where c = "Suc (length rc)"]) (simp add: h' new)
    have c: "hops (bfs_distances st') x \<le> hops (bfs_distances st') y"
      if "x \<in> set rest" "y \<in> set new" for x y
      using that span[of x cur] restV new hc by (auto simp: h')
    have "sorted (map (hops (bfs_distances st')) rest)"
      unfolding a using srt by simp
    then show ?thesis
      unfolding Q' using b c by (simp add: sorted_append)
  qed
  have c6: "hops (bfs_distances st') v \<le> hops (bfs_distances st') x + 1"
    if vx: "v \<in> bfs_visited st'" "x \<in> set (bfs_queue st')" for v x
  proof -
    consider "v \<in> V" "x \<in> set rest" | "v \<in> V" "x \<in> N - V" | "v \<in> N - V" "x \<in> set rest"
      | "v \<in> N - V" "x \<in> N - V"
      using vx new by (auto simp: V' Q')
    then show ?thesis
    proof cases
      case 1
      then show ?thesis using span[of v x] restV by (auto simp: h')
    next
      case 2
      then show ?thesis using span[of v cur] hc by (auto simp: h')
    next
      case 3
      then show ?thesis using le_cur[of x] restV hc by (auto simp: h')
    next
      case 4
      then show ?thesis by (auto simp: h')
    qed
  qed
  have c7: "w \<in> bfs_visited st'"
    if "v \<in> bfs_visited st'" "v \<notin> set (bfs_queue st')" "HasEdge g v w" for v w
  proof -
    have vV: "v \<in> V" "v \<notin> set rest" using that(1,2) new by (auto simp: V' Q')
    show ?thesis
    proof (cases "v = cur")
      case True
      then show ?thesis using that(3) by (simp add: V' N)
    next
      case False
      then show ?thesis using closed[of v w] vV that(3) by (simp add: V')
    qed
  qed
  have c8: "hops (bfs_distances st') w \<le> hops (bfs_distances st') v + 1"
    if vw: "v \<in> bfs_visited st'" "w \<in> bfs_visited st'" "HasEdge g v w" for v w
  proof -
    consider "v \<in> V" "w \<in> V" | "v \<in> V" "w \<in> N - V" | "v \<in> N - V" "w \<in> V"
      | "v \<in> N - V" "w \<in> N - V"
      using vw by (auto simp: V')
    then show ?thesis
    proof cases
      case 1
      then show ?thesis using tri[of v w] vw(3) by (auto simp: h')
    next
      case 2
      then have "v \<in> set (cur # rest)" using closed[of v w] vw(3) by blast
      then have "hops d cur \<le> hops d v" using le_cur[of v] by auto
      then show ?thesis using 2 hc by (auto simp: h')
    next
      case 3
      then show ?thesis using span[of w cur] hc by (auto simp: h')
    next
      case 4
      then show ?thesis by (auto simp: h')
    qed
  qed
  show ?thesis
    unfolding bfs_inv_def st'_def[symmetric]
    using c1 c2 c3 c4 c5 c6 c7 c8 by blast
qed

lemma bfs_loop_inv:
  assumes "wf_graph g" "bfs_inv g s st"
  shows "bfs_inv g s (bfs_loop g st) \<and> bfs_queue (bfs_loop g st) = []"
  using assms
proof (induction g st rule: bfs_loop.induct)
  case (1 g st)
  show ?case
  proof (cases "bfs_queue st")
    case Nil
    then show ?thesis using "1.prems" by (simp add: bfs_loop.simps)
  next
    case (Cons cur rest)
    have "bfs_loop g st = bfs_loop g (foldl (bfs_visit cur) (st\<lparr>bfs_queue := rest\<rparr>) (Successors g cur))"
      using Cons by (subst bfs_loop.simps) simp
    then show ?thesis
      using "1.IH"[OF Cons "1.prems"(1) bfs_inv_step[OF "1.prems" Cons]] by simp
  qed
qed

lemma is_path_stays_in:
  assumes "\<And>v w. v \<in> V \<Longrightarrow> HasEdge g v w \<Longrightarrow> w \<in> V"
  shows "is_path g p \<Longrightarrow> hd p \<in> V \<Longrightarrow> set p \<subseteq> V"
proof (induction p rule: induct_list012)
  case (3 x y zs)
  then have "y \<in> V" using assms[of x y] by simp
  then show ?case using 3 by simp
qed simp_all

lemma is_path_hops:
  assumes "\<And>v w. v \<in> V \<Longrightarrow> w \<in> V \<Longrightarrow> HasEdge g v w \<Longrightarrow> h w \<le> h v + (1::nat)"
  shows "is_path g p \<Longrightarrow> set p \<subseteq> V \<Longrightarrow> h (last p) + 1 \<le> h (hd p) + length p"
proof (induction p rule: induct_list012)
  case (3 x y zs)
  then have "h (last (y # zs)) + 1 \<le> h y + length (y # zs)" by simp
  moreover have "h y \<le> h x + 1" using 3 assms[of x y] by simp
  ultimately show ?case by simp
qed simp_all

lemma hd_rev_chain: "chain previous s l \<Longrightarrow> last l = s"
  by (induction previous s l rule: chain.induct) auto

lemma BFS_result:
  fixes g :: "'k graphData"
  assumes wf: "wf_graph g"
  shows "(snd (BFS g s) t \<noteq> None) = (\<exists>p. path_between g s t p)"
    and "snd (BFS g s) t \<noteq> None \<Longrightarrow>
         \<exists>r. chain (snd (BFS g s)) s (t # r) \<and> path_between g s t (rev (t # r))
            \<and> fst (BFS g s) t = Some (Fin (real (length r)))
            \<and> (\<forall>p. path_between g s t p \<longrightarrow> Suc (length r) \<le> length p)"
proof -
  define st where "st = bfs_loop g \<lparr>bfs_queue = [s], bfs_visited = {s},
      bfs_distances = Map.empty(s \<mapsto> 0), bfs_previous = Map.empty(s \<mapsto> s)\<rparr>"
  define V where "V = bfs_visited st"
  define h where "h = hops (bfs_distances st)"
  have res: "BFS g s = (bfs_distances st, bfs_previous st)"
    by (simp add: BFS_def st_def Let_def)
  have inv: "bfs_inv g s st" and qe: "bfs_queue st = []"
    using bfs_loop_inv[OF wf bfs_inv_init[of g s]] by (simp_all add: st_def)
  have I: "s \<in> V \<and> set (bfs_queue st) \<subseteq> V \<and>
     (\<forall>v. (v \<in> V) = (bfs_previous st v \<noteq> None)) \<and>
     (\<forall>v \<in> V. \<exists>r. chain (bfs_previous st) s (v # r) \<and> set r \<subseteq> V
          \<and> is_path g (rev (v # r)) \<and> bfs_distances st v = Some (Fin (real (length r)))) \<and>
     sorted (map h (bfs_queue st)) \<and>
     (\<forall>v \<in> V. \<forall>x \<in> set (bfs_queue st). h v \<le> h x + 1) \<and>
     (\<forall>v \<in> V - set (bfs_queue st). \<forall>w. HasEdge g v w \<longrightarrow> w \<in> V) \<and>
     (\<forall>v \<in> V. \<forall>w \<in> V. HasEdge g v w \<longrightarrow> h w \<le> h v + 1)"
    using inv unfolding bfs_inv_def V_def h_def .
  have sV: "s \<in> V" using I by (elim conjE)
  have dom0: "\<forall>v. (v \<in> V) = (bfs_previous st v \<noteq> None)" using I by (elim conjE)
  have ch0: "\<forall>v \<in> V. \<exists>r. chain (bfs_previous st) s (v # r) \<and> set r \<subseteq> V
          \<and> is_path g (rev (v # r)) \<and> bfs_distances st v = Some (Fin (real (length r)))"
    using I by (elim conjE)
  have closed0: "\<forall>v \<in> V - set (bfs_queue st). \<forall>w. HasEdge g v w \<longrightarrow> w \<in> V"
    using I by (elim conjE)
  have tri0: "\<forall>v \<in> V. \<forall>w \<in> V. HasEdge g v w \<longrightarrow> h w \<le> h v + 1"
    using I by (elim conjE)
  have dom: "(v \<in> V) = (bfs_previous st v \<noteq> None)" for v
    using dom0 by (rule spec)
  have ch: "\<exists>r. chain (bfs_previous st) s (v # r) \<and> set r \<subseteq> V
          \<and> is_path g (rev (v # r)) \<and> bfs_distances st v = Some (Fin (real (length r)))"
    if "v \<in> V" for v
    using ch0 that by (rule bspec)
  have closed: "w \<in> V" if "v \<in> V" "HasEdge g v w" for v w
    using closed0 that by (simp add: qe)
  have tri: "h w \<le> h v + 1" if "v \<in> V" "w \<in> V" "HasEdge g v w" for v w
    using tri0 that by simp
  have hs: "h s = 0"
  proof -
    obtain r where "chain (bfs_previous st) s (s # r)" "bfs_distances st s = Some (Fin (real (length r)))"
      using ch[OF sV] by blast
    then show ?thesis
      using chain_start[of "bfs_previous st" s r] by (simp add: h_def hops_def)
  qed
  have reach: "t \<in> V" if "path_between g s t p" for p t
  proof -
    have "set p \<subseteq> V"
      using that sV by (intro is_path_stays_in[of V g]) (auto simp: path_between_def dest: closed)
    moreover have "p \<noteq> []" using that by (auto simp: path_between_def)
    ultimately show ?thesis using that by (auto simp: path_between_def)
  qed
  have short: "h t + 1 \<le> length p" if "path_between g s t p" for p t
  proof -
    have "set p \<subseteq> V"
      using that sV by (intro is_path_stays_in[of V g]) (auto simp: path_between_def dest: closed)
    then have "h (last p) + 1 \<le> h (hd p) + length p"
      using that by (intro is_path_hops[of V g h]) (auto simp: path_between_def dest: tri)
    then show ?thesis using that hs by (simp add: path_between_def)
  qed
  have found: "\<exists>r. chain (bfs_previous st) s (t # r) \<and> path_between g s t (rev (t # r))
            \<and> bfs_distances st t = Some (Fin (real (length r))) \<and> h t = length r" if tV: "t \<in> V" for t
  proof -
    obtain r where r: "chain (bfs_previous st) s (t # r)" "is_path g (rev (t # r))"
        "bfs_distances st t = Some (Fin (real (length r)))"
      using ch[OF tV] by blast
    have "hd (rev (t # r)) = last (t # r)"
      by (rule hd_rev)
    then have "hd (rev (t # r)) = s"
      using hd_rev_chain[OF r(1)] by simp
    then show ?thesis
      using r by (intro exI[of _ r]) (simp add: path_between_def h_def hops_real)
  qed
  show "(snd (BFS g s) t \<noteq> None) = (\<exists>p. path_between g s t p)"
    unfolding res using dom[of t] reach[of t] found[of t] by auto
  show "\<exists>r. chain (snd (BFS g s)) s (t # r) \<and> path_between g s t (rev (t # r))
            \<and> fst (BFS g s) t = Some (Fin (real (length r)))
            \<and> (\<forall>p. path_between g s t p \<longrightarrow> Suc (length r) \<le> length p)"
    if "snd (BFS g s) t \<noteq> None"
  proof -
    have "t \<in> V" using that dom[of t] by (simp add: res)
    then obtain r where r: "chain (bfs_previous st) s (t # r)" "path_between g s t (rev (t # r))"
        "bfs_distances st t = Some (Fin (real (length r)))" "h t = length r"
      using found by blast
    show ?thesis
      using r short[of t] by (intro exI[of _ r]) (auto simp: res)
  qed
qed

lemma BFSTo_found:
  fixes g :: "('k::default) graphData"
  assumes wf: "wf_graph g" and ne: "target \<noteq> start" and p: "path_between g start target p"
  shows "\<exists>q. BFSTo g start target = Some (q, length q, Fin (real (length q - 1)))
           \<and> path_between g start target q
           \<and> (\<forall>p'. path_between g start target p' \<longrightarrow> length q \<le> length p')"
proof -
  have some: "snd (BFS g start) target \<noteq> None"
    using BFS_result(1)[OF wf, of start target] p by blast
  from BFS_result(2)[OF wf some]
  obtain r where r: "chain (snd (BFS g start)) start (target # r)"
      "path_between g start target (rev (target # r))"
      "fst (BFS g start) target = Some (Fin (real (length r)))"
      "\<forall>p. path_between g start target p \<longrightarrow> Suc (length r) \<le> length p"
    by blast
  have w: "walk_back (snd (BFS g start)) start target [target] = Some (target # r)"
    using walk_back_chain[OF r(1), of "[target]"] by simp
  have "BFSTo g start target = Some (rev (target # r), length (target # r), Fin (real (length r)))"
    using ne some w r(3) by (auto simp: BFSTo_def Let_def case_prod_unfold dist_at_def)
  then show ?thesis
    using r(2,4) by (intro exI[of _ "rev (target # r)"]) simp
qed

lemma BFSTo_unreachable:
  fixes g :: "('k::default) graphData"
  assumes wf: "wf_graph g" and ne: "target \<noteq> start" and p: "\<not> (\<exists>p. path_between g start target p)"
  shows "BFSTo g start target = Some ([], 0, PInf)"
proof -
  have "snd (BFS g start) target = None"
    using BFS_result(1)[OF wf, of start target] p by blast
  then show ?thesis
    using ne by (auto simp: BFSTo_def Let_def case_prod_unfold)
qed

text \<open>
  C2. When the target is not the start and some path leads to it, \<^verbatim>\<open>BFSTo\<close> returns a path
  from start to target that follows adjacency entries, together with its node count and,
  as hop distance, that count minus one; no path from start to target has fewer nodes.
\<close>

theorem BFSTo_shortest:
  fixes g :: "('k::default) graphData"
  assumes "wf_graph g" and "target \<noteq> start" and "path_between g start target p"
  shows "\<exists>q. BFSTo g start target = Some (q, length q, Fin (real (length q - 1)))
           \<and> path_between g start target q
           \<and> (\<forall>p'. path_between g start target p' \<longrightarrow> length q \<le> length p')"
  using assms by (rule BFSTo_found)

theorem BFSTo_shortest_witness:
  "wf_graph [(Node (1::nat), [(Node 2, Fin 1), (Node 3, Fin 1)]), (Node 2, [(Node 3, Fin 1)]), (Node 3, [])]
   \<and> path_between [(Node (1::nat), [(Node 2, Fin 1), (Node 3, Fin 1)]), (Node 2, [(Node 3, Fin 1)]), (Node 3, [])]
        (Node 1) (Node 3) [Node 1, Node 2, Node 3]
   \<and> BFSTo [(Node (1::nat), [(Node 2, Fin 1), (Node 3, Fin 1)]), (Node 2, [(Node 3, Fin 1)]), (Node 3, [])]
        (Node 1) (Node 3) = Some ([Node 1, Node 3], 2, Fin 1)"
proof -
  let ?g = "[(Node (1::nat), [(Node 2, Fin 1), (Node 3, Fin 1)]), (Node 2, [(Node 3, Fin 1)]), (Node 3, [])]"
  have w: "wf_graph ?g"
    by (simp add: wf_graph_def)
  have n: "Node (3::nat) \<noteq> Node 1"
    by simp
  have p: "path_between ?g (Node 1) (Node 3) [Node 1, Node 2, Node 3]"
    by (simp add: path_between_def HasEdge_def)
  show ?thesis
    using w p BFSTo_shortest[OF w n p]
    by (simp add: bfs_eval)
qed

subsection \<open>Dijkstra: what the predecessor map says about reachability\<close>

lemma init_distances:
  "foldl (\<lambda>d node. d(node \<mapsto> PInf)) m ns = (\<lambda>v. if v \<in> set ns then Some PInf else m v)"
  by (induction ns arbitrary: m) (auto simp: fun_eq_iff)

lemma adjacency_HasEdge: "(v, w) \<in> set (adjacency g c) \<Longrightarrow> HasEdge g c v"
proof (cases "map_of g c")
  case None
  assume "(v, w) \<in> set (adjacency g c)"
  then show ?thesis using None by (simp add: adjacency_def)
next
  case (Some a)
  assume "(v, w) \<in> set (adjacency g c)"
  then have "v \<in> fst ` set a" using Some by (force simp: adjacency_def)
  then show ?thesis using Some by (simp add: HasEdge_def map_of_eq_None_iff)
qed

lemma adjacency_HasNode: "(v, w) \<in> set (adjacency g c) \<Longrightarrow> HasNode g c"
  by (cases "map_of g c") (simp_all add: adjacency_def HasNode_def)

lemma path_between_snoc:
  assumes "path_between g s c p" "HasEdge g c v"
  shows "path_between g s v (p @ [v])"
proof -
  have "p \<noteq> []" using assms(1) by (auto simp: path_between_def)
  moreover have "is_path g (p @ [v])"
    using assms by (intro is_path_snoc) (simp_all add: path_between_def)
  ultimately show ?thesis
    using assms(1) by (simp add: path_between_def)
qed

lemma path_between_refl: "path_between g s s [s]"
  by (simp add: path_between_def)

text \<open>
  Whatever the weights are: a node with a predecessor, and a node of the graph whose
  distance is no longer \<^verbatim>\<open>math.Inf(1)\<close>, can be reached from the start. A relaxation
  that succeeds starts from a node whose distance is not \<^verbatim>\<open>math.Inf(1)\<close>, because
  \<^verbatim>\<open>math.Inf(1)\<close> plus anything is \<^verbatim>\<open>math.Inf(1)\<close> or NaN, and neither is less than
  anything.
\<close>

definition reach_inv :: "'k graphData \<Rightarrow> 'k Node \<Rightarrow> 'k Distances \<times> 'k Paths \<Rightarrow> bool" where
  "reach_inv g s dp \<longleftrightarrow>
     (\<forall>v. snd dp v \<noteq> None \<longrightarrow> (\<exists>p. path_between g s v p)) \<and>
     (\<forall>v. HasNode g v \<and> dist_at (fst dp) v \<noteq> PInf \<longrightarrow> (\<exists>p. path_between g s v p))"

lemma reach_inv_relax:
  assumes "reach_inv g s dp" "e \<in> set (adjacency g c)"
  shows "reach_inv g s (relax c dp e)"
proof (cases "fadd (dist_at (fst dp) c) (snd e) < dist_at (fst dp) (fst e)")
  case False
  then show ?thesis using assms(1) by (simp add: relax_def Let_def)
next
  case True
  have fin: "fadd (dist_at (fst dp) c) (snd e) \<noteq> PInf \<and> fadd (dist_at (fst dp) c) (snd e) \<noteq> NaN"
    using True by (rule less_finite)
  then have "dist_at (fst dp) c \<noteq> PInf"
    using fadd_PInf[of "snd e"] by auto
  moreover have "HasNode g c" "HasEdge g c (fst e)"
    using assms(2) adjacency_HasNode[of "fst e" "snd e" g c] adjacency_HasEdge[of "fst e" "snd e" g c]
    by simp_all
  ultimately obtain p where "path_between g s c p" "HasEdge g c (fst e)"
    using assms(1) unfolding reach_inv_def by blast
  then have new: "\<exists>p. path_between g s (fst e) p"
    using path_between_snoc by blast
  have r: "relax c dp e =
      ((fst dp)(fst e \<mapsto> fadd (dist_at (fst dp) c) (snd e)), (snd dp)(fst e \<mapsto> c))"
    using True by (simp add: relax_def Let_def)
  show ?thesis
    unfolding r reach_inv_def
    using assms(1) new by (auto simp: reach_inv_def dist_at_def)
qed

lemma Dijkstra_previous_reachable:
  assumes "snd (Dijkstra g s) t \<noteq> None"
  shows "\<exists>p. path_between g s t p"
proof -
  have "reach_inv g s (Dijkstra g s)"
    unfolding Dijkstra_def Let_def
  proof (rule dijkstra_loop_relax_invariant)
    show "reach_inv g s ((foldl (\<lambda>d node. d(node \<mapsto> PInf)) Map.empty (map fst g))(s \<mapsto> 0), [s \<mapsto> s])"
      using path_between_refl[of g s]
      by (auto simp: reach_inv_def init_distances dist_at_def HasNode_def map_of_eq_None_iff)
  qed (rule reach_inv_relax)
  then show ?thesis using assms by (simp add: reach_inv_def)
qed

lemma walk_back_length:
  assumes "walk_back previous s c acc = Some path"
  shows "length acc \<le> length path"
proof (rule walk_back.raw_induct[where P = "\<lambda>previous s c acc path. length acc \<le> length path",
      OF _ assms])
  fix wb :: "'a Paths \<Rightarrow> 'a Node \<Rightarrow> 'a Node \<Rightarrow> 'a Node list \<Rightarrow> 'a Node list option"
    and previous start current path y
  assume IH: "\<And>start current path b y. wb start current path b = Some y \<Longrightarrow> length b \<le> length y"
    and eq: "(if current \<noteq> start
      then wb previous start (prev_at previous current) (path @ [prev_at previous current])
      else Some path) = Some y"
  show "length path \<le> length y"
  proof (cases "current \<noteq> start")
    case True
    then have "wb previous start (prev_at previous current) (path @ [prev_at previous current]) = Some y"
      using eq by simp
    then have "length (path @ [prev_at previous current]) \<le> length y"
      by (rule IH)
    then show ?thesis by simp
  next
    case False
    then show ?thesis using eq by simp
  qed
qed

lemma relax_mono: "dist_at (fst (relax c dp e)) v \<le> dist_at (fst dp) v"
  by (auto simp: relax_def Let_def dist_at_def less_imp_le)

lemma relax_untouched:
  "snd (relax c dp e) v = None \<Longrightarrow> snd dp v = None \<and> fst (relax c dp e) v = fst dp v"
  by (auto simp: relax_def Let_def split: if_splits)

lemma relax_fold_mono: "dist_at (fst (foldl (relax c) dp es)) v \<le> dist_at (fst dp) v"
proof (induction es arbitrary: dp)
  case Nil
  then show ?case by simp
next
  case (Cons e es)
  have "dist_at (fst (foldl (relax c) (relax c dp e) es)) v \<le> dist_at (fst (relax c dp e)) v"
    by (rule Cons.IH)
  also have "\<dots> \<le> dist_at (fst dp) v" by (rule relax_mono)
  finally show ?case by simp
qed

lemma relax_fold_untouched:
  "snd (foldl (relax c) dp es) v = None \<Longrightarrow>
   snd dp v = None \<and> fst (foldl (relax c) dp es) v = fst dp v"
proof (induction es arbitrary: dp)
  case Nil
  then show ?case by simp
next
  case (Cons e es)
  then have "snd (relax c dp e) v = None \<and> fst (foldl (relax c) (relax c dp e) es) v = fst (relax c dp e) v"
    by simp
  then show ?case using relax_untouched[of c dp e v] by simp
qed

lemma set_delete_at:
  "distinct xs \<Longrightarrow> i < length xs \<Longrightarrow>
   set (delete_at i xs) = set xs - {xs ! i} \<and> distinct (delete_at i xs)"
proof -
  assume d: "distinct xs" and i: "i < length xs"
  have xs: "xs = take i xs @ xs ! i # drop (Suc i) xs"
    using i by (rule id_take_nth_drop)
  have "distinct (take i xs @ xs ! i # drop (Suc i) xs)"
    using d xs by simp
  then have "set (take i xs @ drop (Suc i) xs) = set (take i xs @ xs ! i # drop (Suc i) xs) - {xs ! i}"
    and "distinct (take i xs @ drop (Suc i) xs)"
    by auto
  then show ?thesis
    unfolding delete_at_def using xs by simp
qed

lemma HasEdge_adjacency: "HasEdge g x y \<Longrightarrow> \<exists>w. (y, w) \<in> set (adjacency g x) \<and> weight g x y = Some w"
proof (cases "map_of g x")
  case None
  assume "HasEdge g x y"
  then show ?thesis using None by (simp add: HasEdge_def)
next
  case (Some a)
  assume "HasEdge g x y"
  then obtain w where "map_of a y = Some w" using Some by (auto simp: HasEdge_def)
  then show ?thesis
    using Some map_of_SomeD[of a y w] by (auto simp: adjacency_def weight_def)
qed

lemma HasEdge_source: "HasEdge g x y \<Longrightarrow> HasNode g x"
  by (cases "map_of g x") (simp_all add: HasEdge_def HasNode_def)

lemma HasEdge_target: "wf_graph g \<Longrightarrow> HasEdge g x y \<Longrightarrow> HasNode g y"
proof (cases "map_of g x")
  case None
  assume "HasEdge g x y"
  then show ?thesis using None by (simp add: HasEdge_def)
next
  case (Some a)
  assume wf: "wf_graph g" and "HasEdge g x y"
  then have "y \<in> set (map fst a)" using Some by (simp add: HasEdge_def map_of_eq_None_iff)
  then show ?thesis using wf_graph_closed[OF wf Some] by blast
qed

lemma is_path_last_edge:
  "is_path g p \<Longrightarrow> hd p \<noteq> last p \<Longrightarrow> \<exists>x. HasEdge g x (last p)"
proof (induction p rule: induct_list012)
  case (3 x y zs)
  show ?case
  proof (cases "y = last (y # zs)")
    case True
    then show ?thesis using 3 by (auto intro: exI[of _ x])
  next
    case False
    then show ?thesis using 3 by simp
  qed
qed simp_all

lemma DijkstraTo_unreachable:
  assumes "\<not> (\<exists>p. path_between g start target p)"
  shows "DijkstraTo g start target = Some ([], 0, PInf)"
proof -
  have "snd (Dijkstra g start) target = None"
    using assms Dijkstra_previous_reachable[of g start target] by blast
  then show ?thesis by (simp add: DijkstraTo_def Let_def case_prod_unfold)
qed

subsection \<open>Dijkstra finds cheapest paths\<close>

lemma accumulate_snoc:
  "p \<noteq> [] \<Longrightarrow>
   accumulate g acc (p @ [v]) =
     fadd (accumulate g acc p) (case weight g (last p) v of None \<Rightarrow> 0 | Some w \<Rightarrow> w)"
  by (induction p arbitrary: acc rule: induct_list012) simp_all

lemma path_cost_snoc:
  "p \<noteq> [] \<Longrightarrow>
   path_cost g (p @ [v]) =
     fadd (path_cost g p) (case weight g (last p) v of None \<Rightarrow> 0 | Some w \<Rightarrow> w)"
  unfolding path_cost_def by (rule accumulate_snoc)

text \<open>
  When every edge is relaxed, the recorded distance of the end of a path is at most
  what the path accumulates from any value that is at least the recorded distance of
  its first node: rounding is monotone, so each step keeps the inequality.
\<close>

lemma accumulate_lower_bound:
  assumes nn: "nonneg_weights g"
    and relaxed: "\<And>u e. e \<in> set (adjacency g u) \<Longrightarrow> da (fst e) \<le> fadd (da u) (snd e)"
    and pos: "\<And>v. 0 \<le> da v"
  shows "is_path g p \<Longrightarrow> da (hd p) \<le> acc \<Longrightarrow> da (last p) \<le> accumulate g acc p"
proof (induction p arbitrary: acc rule: induct_list012)
  case 1
  then show ?case by simp
next
  case (2 x)
  then show ?case by simp
next
  case (3 x y zs)
  then have e: "HasEdge g x y" by simp
  obtain w where w: "(y, w) \<in> set (adjacency g x)" "weight g x y = Some w"
    using HasEdge_adjacency[OF e] by blast
  have w0: "0 \<le> w"
    using nn w(1) by (rule nonneg_adjacency)
  have "da y \<le> fadd (da x) w"
    using relaxed[OF w(1)] by simp
  also have "\<dots> \<le> fadd acc w"
    using pos[of x] 3(4) w0 by (intro fadd_mono) simp_all
  finally have "da (hd (y # zs)) \<le> fadd acc w"
    by simp
  moreover have "is_path g (y # zs)"
    using 3(3) by simp
  ultimately have "da (last (y # zs)) \<le> accumulate g (fadd acc w) (y # zs)"
    by (rule 3(2)[rotated])
  then show ?case
    using w(2) by simp
qed

lemma relax_other:
  "v \<noteq> fst e \<Longrightarrow> fst (relax c dp e) v = fst dp v \<and> snd (relax c dp e) v = snd dp v"
  by (simp add: relax_def Let_def)

lemma relax_current_same:
  assumes "0 \<le> snd e" and "0 \<le> dist_at (fst dp) c" and "representable (dist_at (fst dp) c)"
  shows "dist_at (fst (relax c dp e)) c = dist_at (fst dp) c"
proof (cases "fst e = c")
  case True
  have "dist_at (fst dp) c \<le> fadd (dist_at (fst dp) c) (snd e)"
    using assms by (intro fadd_increasing)
  then have "\<not> fadd (dist_at (fst dp) c) (snd e) < dist_at (fst dp) c"
    by (rule leD)
  then show ?thesis
    using True by (simp add: relax_def Let_def)
next
  case False
  then show ?thesis using relax_other[of c e c dp] by (simp add: dist_at_def)
qed

lemma foldl_relax_eq:
  assumes "distinct (map fst es)" "\<forall>e \<in> set es. 0 \<le> snd e"
    and "0 \<le> dist_at (fst dp) c" "representable (dist_at (fst dp) c)"
  shows "fst (foldl (relax c) dp es) v =
           (case map_of es v of
              None \<Rightarrow> fst dp v
            | Some w \<Rightarrow> if fadd (dist_at (fst dp) c) w < dist_at (fst dp) v
                        then Some (fadd (dist_at (fst dp) c) w) else fst dp v)
       \<and> snd (foldl (relax c) dp es) v =
           (case map_of es v of
              None \<Rightarrow> snd dp v
            | Some w \<Rightarrow> if fadd (dist_at (fst dp) c) w < dist_at (fst dp) v
                        then Some c else snd dp v)"
  using assms
proof (induction es arbitrary: dp)
  case Nil
  then show ?case by simp
next
  case (Cons e es)
  let ?dp1 = "relax c dp e"
  have d: "distinct (map fst es)" and nn: "\<forall>e \<in> set es. 0 \<le> snd e"
    and notin: "fst e \<notin> fst ` set es" and e0: "0 \<le> snd e"
    using Cons.prems by simp_all
  have cs: "dist_at (fst ?dp1) c = dist_at (fst dp) c"
    using e0 Cons.prems(3,4) by (rule relax_current_same)
  have c1: "0 \<le> dist_at (fst ?dp1) c" "representable (dist_at (fst ?dp1) c)"
    using Cons.prems(3,4) by (simp_all add: cs)
  note IH = Cons.IH[OF d nn c1, of ]
  show ?case
  proof (cases "v = fst e")
    case True
    then have n: "map_of es v = None" using notin by (simp add: map_of_eq_None_iff)
    have r: "fst ?dp1 v = (if fadd (dist_at (fst dp) c) (snd e) < dist_at (fst dp) v
                          then Some (fadd (dist_at (fst dp) c) (snd e)) else fst dp v)"
      "snd ?dp1 v = (if fadd (dist_at (fst dp) c) (snd e) < dist_at (fst dp) v
                          then Some c else snd dp v)"
      using True by (simp_all add: relax_def Let_def)
    have m: "map_of (e # es) v = Some (snd e)" using True by (cases e) simp
    have "fst (foldl (relax c) ?dp1 es) v = fst ?dp1 v" "snd (foldl (relax c) ?dp1 es) v = snd ?dp1 v"
      using IH n by simp_all
    then show ?thesis
      unfolding foldl_Cons m r by simp
  next
    case False
    then have o: "fst ?dp1 v = fst dp v" "snd ?dp1 v = snd dp v"
      using relax_other[of v e c dp] by simp_all
    then have dv: "dist_at (fst ?dp1) v = dist_at (fst dp) v" by (simp add: dist_at_def)
    have m: "map_of (e # es) v = map_of es v" using False by (cases e) simp
    show ?thesis
      unfolding foldl_Cons m using IH unfolding o cs dv .
  qed
qed

text \<open>
  What holds each time the outer loop of \<^verbatim>\<open>Dijkstra\<close> tests its condition, when no weight
  is negative or NaN: the start keeps distance 0; every distance is a non-negative
  \<^verbatim>\<open>float64\<close>; a node has no predecessor exactly when its distance is still
  \<^verbatim>\<open>math.Inf(1)\<close>; every edge leaving a node already taken from the queue is relaxed;
  taken nodes are no farther than queued ones; and every node with a predecessor has a
  chain of predecessor links through taken nodes that is a path of the graph whose cost
  is the node's recorded distance.
\<close>

definition dijkstra_inv ::
  "'k graphData \<Rightarrow> 'k Node \<Rightarrow> 'k Node list \<Rightarrow> 'k Distances \<times> 'k Paths \<Rightarrow> bool" where
  "dijkstra_inv g s queue dp \<longleftrightarrow>
     distinct queue \<and> set queue \<subseteq> set (map fst g) \<and>
     dist_at (fst dp) s = 0 \<and> snd dp s = Some s \<and>
     (\<forall>v. 0 \<le> dist_at (fst dp) v) \<and> (\<forall>v. representable (dist_at (fst dp) v)) \<and>
     (\<forall>v. HasNode g v \<and> snd dp v = None \<longrightarrow> dist_at (fst dp) v = PInf) \<and>
     (\<forall>v. snd dp v \<noteq> None \<longrightarrow> dist_at (fst dp) v \<noteq> PInf) \<and>
     (\<forall>u. u \<notin> set queue \<longrightarrow>
          (\<forall>e \<in> set (adjacency g u).
              dist_at (fst dp) (fst e) \<le> fadd (dist_at (fst dp) u) (snd e))) \<and>
     (\<forall>u x. u \<notin> set queue \<and> x \<in> set queue \<longrightarrow> dist_at (fst dp) u \<le> dist_at (fst dp) x) \<and>
     (\<forall>v. snd dp v \<noteq> None \<longrightarrow>
          (\<exists>r. chain (snd dp) s (v # r) \<and> set r \<inter> set queue = {} \<and> is_path g (rev (v # r))
              \<and> path_cost g (rev (v # r)) = dist_at (fst dp) v))"

lemma dijkstra_inv_init:
  assumes "wf_graph g"
  shows "dijkstra_inv g s (map fst g)
           ((foldl (\<lambda>d node. d(node \<mapsto> PInf)) Map.empty (map fst g))(s \<mapsto> 0), [s \<mapsto> s])"
proof -
  have n: "HasNode g v = (v \<in> set (map fst g))" for v
    by (simp add: HasNode_def map_of_eq_None_iff)
  have z: "0 \<le> PInf" by (simp add: zero_float64_def)
  have rp: "representable 0" "representable PInf"
    by (simp_all add: representable_def zero_float64_def is_float64_zero)
  have a: "adjacency g u = []" if "u \<notin> set (map fst g)" for u
    using that n[of u] by (simp add: adjacency_def HasNode_def)
  have pc: "path_cost g [s] = 0"
    by (simp add: path_cost_def)
  have nz: "PInf \<noteq> (0::float64)"
    by (simp add: zero_float64_def)
  show ?thesis
    unfolding dijkstra_inv_def
    using wf_graph_distinct[OF assms] z a rp pc nz
    by (auto simp: init_distances dist_at_def n simp del: set_map intro!: exI[of _ "[]"])
qed

lemma adjacency_distinct: "wf_graph g \<Longrightarrow> distinct (map fst (adjacency g c))"
  by (cases "map_of g c") (simp_all add: adjacency_def wf_graph_adj_distinct)

lemma dijkstra_inv_step:
  assumes wf: "wf_graph g" and nn: "nonneg_weights g"
    and inv: "dijkstra_inv g s queue dp" and ne: "queue \<noteq> []"
  shows "dijkstra_inv g s (delete_at (fst (scan_min (fst dp) queue)) queue)
           (foldl (relax (queue ! fst (scan_min (fst dp) queue))) dp
              (adjacency g (queue ! fst (scan_min (fst dp) queue))))"
proof -
  define mi where "mi = fst (scan_min (fst dp) queue)"
  define cur where "cur = queue ! mi"
  define adj where "adj = adjacency g cur"
  define dp' where "dp' = foldl (relax cur) dp adj"
  define da where "da = dist_at (fst dp)"
  define da' where "da' = dist_at (fst dp')"
  define Q' where "Q' = delete_at mi queue"
  define upd where "upd v \<longleftrightarrow> (\<exists>w. map_of adj v = Some w \<and> fadd (da cur) w < da v)" for v
  have dq: "distinct queue" and qn: "set queue \<subseteq> set (map fst g)"
    and i3: "da s = 0" and i4: "snd dp s = Some s" and i5: "\<And>v. 0 \<le> da v"
    and i5r: "\<And>v. representable (da v)"
    and i6: "\<And>v. HasNode g v \<Longrightarrow> snd dp v = None \<Longrightarrow> da v = PInf"
    and i6': "\<And>v. snd dp v \<noteq> None \<Longrightarrow> da v \<noteq> PInf"
    and i7: "\<And>u e. u \<notin> set queue \<Longrightarrow> e \<in> set (adjacency g u) \<Longrightarrow> da (fst e) \<le> fadd (da u) (snd e)"
    and i8: "\<And>u x. u \<notin> set queue \<Longrightarrow> x \<in> set queue \<Longrightarrow> da u \<le> da x"
    and i9: "\<And>v. snd dp v \<noteq> None \<Longrightarrow>
          \<exists>r. chain (snd dp) s (v # r) \<and> set r \<inter> set queue = {} \<and> is_path g (rev (v # r))
              \<and> path_cost g (rev (v # r)) = da v"
    using inv unfolding dijkstra_inv_def da_def by blast+
  have mi: "mi < length queue" unfolding mi_def using ne by (rule scan_min_index)
  have curq: "cur \<in> set queue" using mi by (simp add: cur_def)
  have curn: "HasNode g cur"
    using curq qn by (auto simp: HasNode_def map_of_eq_None_iff)
  have least: "da cur \<le> da x" if "x \<in> set queue" for x
    unfolding da_def cur_def mi_def using i5[unfolded da_def] that by (rule scan_min_least)
  have q': "set Q' = set queue - {cur}" and dq': "distinct Q'"
    using set_delete_at[OF dq mi] by (simp_all add: cur_def Q'_def)
  have adjd: "distinct (map fst adj)"
    unfolding adj_def using wf by (rule adjacency_distinct)
  have adjn: "\<forall>e \<in> set adj. 0 \<le> snd e"
    unfolding adj_def using nonneg_adjacency[OF nn] by auto
  have wpos: "0 \<le> w" if "map_of adj v = Some w" for v w
    using map_of_SomeD[OF that] adjn by auto
  have cur_le: "da cur \<le> fadd (da cur) w" if "map_of adj v = Some w" for v w
    using i5r[of cur] i5[of cur] wpos[OF that] by (rule fadd_increasing)
  have alt0: "0 \<le> fadd (da cur) w" if "map_of adj v = Some w" for v w
    using i5[of cur] wpos[OF that] by (rule fadd_nonneg)
  note eq = foldl_relax_eq[OF adjd adjn i5[of cur, unfolded da_def] i5r[of cur, unfolded da_def],
      folded dp'_def da_def]
  have upd_yes: "\<exists>w. map_of adj v = Some w \<and> fadd (da cur) w < da v
                   \<and> fst dp' v = Some (fadd (da cur) w) \<and> snd dp' v = Some cur" if "upd v" for v
    using that eq[of v] unfolding upd_def by auto
  have upd_no: "fst dp' v = fst dp v \<and> snd dp' v = snd dp v" if "\<not> upd v" for v
    using that eq[of v] unfolding upd_def by (cases "map_of adj v") auto
  have same: "da' v = da v" if "\<not> upd v" for v
    using upd_no[OF that] by (simp add: da'_def da_def dist_at_def)
  have upd_in: "v \<in> set Q'" if u: "upd v" for v
  proof -
    obtain w where w: "map_of adj v = Some w" "fadd (da cur) w < da v"
      using u unfolding upd_def by blast
    have "da cur < da v"
      using cur_le[OF w(1)] w(2) by (rule le_less_trans)
    then have "\<not> da v \<le> da cur"
      by (simp add: less_le_not_le)
    then have "v \<in> set queue" "v \<noteq> cur"
      using i8[of v cur] curq by auto
    then show ?thesis by (simp add: q')
  qed
  have settled: "\<not> upd v" if "v \<notin> set Q'" for v
    using upd_in that by blast
  have s_no: "\<not> upd s"
  proof
    assume "upd s"
    then obtain w where w: "map_of adj s = Some w" "fadd (da cur) w < da s"
      unfolding upd_def by blast
    then show False using alt0[OF w(1)] i3 by (simp add: less_le_not_le)
  qed
  have c3: "da' s = 0" and c4: "snd dp' s = Some s"
    using same[OF s_no] upd_no[OF s_no] i3 i4 by simp_all
  have c5: "0 \<le> da' v" for v
  proof (cases "upd v")
    case True
    then obtain w where w: "map_of adj v = Some w" "fst dp' v = Some (fadd (da cur) w)"
      using upd_yes by blast
    then show ?thesis using alt0[OF w(1)] by (simp add: da'_def dist_at_def)
  next
    case False
    then show ?thesis using same i5 by simp
  qed
  have c5r: "representable (da' v)" for v
  proof (cases "upd v")
    case True
    then obtain w where w: "fst dp' v = Some (fadd (da cur) w)"
      using upd_yes by blast
    then show ?thesis by (simp add: da'_def dist_at_def fadd_representable)
  next
    case False
    then show ?thesis using same i5r by simp
  qed
  have c6: "da' v = PInf" if "HasNode g v" "snd dp' v = None" for v
  proof -
    have "\<not> upd v" using upd_yes[of v] that(2) by auto
    then show ?thesis using upd_no[of v] same[of v] i6[OF that(1)] that(2) by simp
  qed
  have c6': "da' v \<noteq> PInf" if "snd dp' v \<noteq> None" for v
  proof (cases "upd v")
    case True
    then obtain w where w: "fadd (da cur) w < da v" "fst dp' v = Some (fadd (da cur) w)"
      using upd_yes by blast
    then show ?thesis using less_finite[OF w(1)] by (simp add: da'_def dist_at_def)
  next
    case False
    then show ?thesis using same[OF False] upd_no[OF False] i6'[of v] that by simp
  qed
  have mono: "da' v \<le> da v" for v
    unfolding da'_def da_def dp'_def by (rule relax_fold_mono)
  have c7: "da' (fst e) \<le> fadd (da' u) (snd e)"
    if u: "u \<notin> set Q'" and e: "e \<in> set (adjacency g u)" for u e
  proof (cases "u = cur")
    case True
    obtain v w where vw: "e = (v, w)" by (cases e)
    have m: "map_of adj v = Some w"
      using e adjd unfolding True adj_def[symmetric] vw by (rule map_of_is_SomeI[rotated])
    have "da' v \<le> fadd (da cur) w"
    proof (cases "upd v")
      case True
      then show ?thesis using upd_yes[of v] m by (auto simp: da'_def dist_at_def)
    next
      case False
      then have "\<not> fadd (da cur) w < da v" using m by (simp add: upd_def)
      then have "da v \<le> fadd (da cur) w"
        using float64_total[OF i5[of v] alt0[OF m]] by simp
      then show ?thesis using same[OF False] by simp
    qed
    then show ?thesis
      using same[OF settled[OF u]] by (simp add: True vw)
  next
    case False
    then have uq: "u \<notin> set queue" using u by (simp add: q')
    have "da' (fst e) \<le> da (fst e)" by (rule mono)
    also have "\<dots> \<le> fadd (da u) (snd e)" using uq e by (rule i7)
    finally show ?thesis using same[OF settled[OF u]] by simp
  qed
  have c8: "da' u \<le> da' x" if u: "u \<notin> set Q'" and x: "x \<in> set Q'" for u x
  proof -
    have xq: "x \<in> set queue" using x by (simp add: q')
    have ucur: "da u \<le> da cur"
      using u i8[of u cur] curq by (cases "u = cur") (auto simp: q')
    have ux: "da u \<le> da x"
      using u i8[of u x] least[OF xq] xq by (cases "u = cur") (auto simp: q')
    have "da u \<le> da' x"
    proof (cases "upd x")
      case True
      then obtain w where w: "map_of adj x = Some w" "fst dp' x = Some (fadd (da cur) w)"
        using upd_yes by blast
      have "da u \<le> fadd (da cur) w" using ucur cur_le[OF w(1)] by (rule order_trans)
      then show ?thesis using w(2) by (simp add: da'_def dist_at_def)
    next
      case False
      then show ?thesis using same ux by simp
    qed
    then show ?thesis using same[OF settled[OF u]] by simp
  qed
  have c9: "\<exists>r. chain (snd dp') s (v # r) \<and> set r \<inter> set Q' = {} \<and> is_path g (rev (v # r))
              \<and> path_cost g (rev (v # r)) = da' v" if v: "snd dp' v \<noteq> None" for v
  proof (cases "upd v")
    case True
    then obtain w where w: "map_of adj v = Some w" "fadd (da cur) w < da v"
        "fst dp' v = Some (fadd (da cur) w)" "snd dp' v = Some cur"
      using upd_yes by blast
    have "fadd (da cur) w \<noteq> PInf \<and> fadd (da cur) w \<noteq> NaN"
      using w(2) by (rule less_finite)
    then have "da cur \<noteq> PInf"
      using fadd_PInf[of w] by auto
    then have "snd dp cur \<noteq> None" using i6[OF curn] by blast
    then obtain rc where rc: "chain (snd dp) s (cur # rc)" "set rc \<inter> set queue = {}"
        "is_path g (rev (cur # rc))" "path_cost g (rev (cur # rc)) = da cur"
      using i9 by blast
    have out: "x \<notin> set Q'" if "x \<in> set (cur # rc)" for x
      using that rc(2) by (auto simp: q')
    have "chain (snd dp') s (cur # rc) = chain (snd dp) s (cur # rc)"
      using upd_no[OF settled[OF out]] by (intro chain_cong) simp
    moreover have "v \<noteq> s" using True s_no by auto
    ultimately have a: "chain (snd dp') s (v # cur # rc)"
      using rc(1) w(4) by simp
    have b: "set (cur # rc) \<inter> set Q' = {}" using out by blast
    have edge: "(v, w) \<in> set (adjacency g cur)"
      using map_of_SomeD[OF w(1)] by (simp add: adj_def)
    have wt: "weight g cur v = Some w"
      using w(1) by (simp add: weight_def adj_def)
    have c: "is_path g (rev (cur # rc) @ [v])"
      using rc(3) adjacency_HasEdge[OF edge] by (intro is_path_snoc) simp_all
    have "path_cost g (rev (cur # rc) @ [v]) = fadd (path_cost g (rev (cur # rc))) w"
      using wt by (subst path_cost_snoc) simp_all
    then have d: "path_cost g (rev (cur # rc) @ [v]) = da' v"
      using rc(4) w(3) by (simp add: da'_def dist_at_def)
    show ?thesis
      using a b c d by (intro exI[of _ "cur # rc"]) simp
  next
    case False
    then have "snd dp v \<noteq> None" using v upd_no by simp
    then obtain r where r: "chain (snd dp) s (v # r)" "set r \<inter> set queue = {}"
        "is_path g (rev (v # r))" "path_cost g (rev (v # r)) = da v"
      using i9 by blast
    have no: "\<not> upd x" if "x \<in> set (v # r)" for x
      using that False r(2) settled[of x] by (auto simp: q')
    have "chain (snd dp') s (v # r) = chain (snd dp) s (v # r)"
      using upd_no[OF no] by (intro chain_cong) simp
    moreover have "set r \<inter> set Q' = {}" using r(2) by (auto simp: q')
    ultimately show ?thesis
      using r same[OF False] by (intro exI[of _ r]) simp
  qed
  have "dijkstra_inv g s Q' dp'"
    unfolding dijkstra_inv_def da'_def[symmetric]
    using dq' qn q' c3 c4 c5 c5r c6 c6' c7 c8 c9 by (simp del: set_map) blast
  then show ?thesis
    by (simp add: Q'_def dp'_def adj_def cur_def mi_def)
qed

lemma Dijkstra_inv_final:
  assumes "wf_graph g" "nonneg_weights g"
  shows "dijkstra_inv g s [] (Dijkstra g s)"
  unfolding Dijkstra_def Let_def
  by (rule dijkstra_loop_rule[where I = "dijkstra_inv g s", OF dijkstra_inv_init[OF assms(1)]])
     (rule dijkstra_inv_step[OF assms])

lemma DijkstraTo_found:
  fixes g :: "('k::default) graphData"
  assumes wf: "wf_graph g" and nn: "nonneg_weights g"
    and p: "path_between g start target p" and fin: "path_cost g p < PInf"
  shows "\<exists>q. DijkstraTo g start target = Some (q, length q, path_cost g q)
           \<and> path_between g start target q
           \<and> (\<forall>p'. path_between g start target p' \<longrightarrow> path_cost g q \<le> path_cost g p')"
proof -
  define da where "da = dist_at (fst (Dijkstra g start))"
  define pr where "pr = snd (Dijkstra g start)"
  have inv: "dijkstra_inv g start [] (Dijkstra g start)"
    using wf nn by (rule Dijkstra_inv_final)
  have i3: "da start = 0" and i4: "pr start = Some start" and i5: "\<And>v. 0 \<le> da v"
    and i6: "\<And>v. HasNode g v \<Longrightarrow> pr v = None \<Longrightarrow> da v = PInf"
    and i7: "\<And>u e. e \<in> set (adjacency g u) \<Longrightarrow> da (fst e) \<le> fadd (da u) (snd e)"
    and i9: "\<And>v. pr v \<noteq> None \<Longrightarrow>
          \<exists>r. chain pr start (v # r) \<and> is_path g (rev (v # r)) \<and> path_cost g (rev (v # r)) = da v"
    using inv unfolding dijkstra_inv_def da_def pr_def by (simp, simp, simp, simp, simp, simp)
  have low: "da target \<le> path_cost g p'" if "path_between g start target p'" for p'
  proof -
    have "da (last p') \<le> accumulate g 0 p'"
      using nn i7 i5 that by (intro accumulate_lower_bound[of g da]) (simp_all add: path_between_def i3)
    then show ?thesis using that by (simp add: path_between_def path_cost_def)
  qed
  have some: "pr target \<noteq> None"
  proof (cases "target = start")
    case True
    then show ?thesis using i4 by simp
  next
    case False
    have ip: "is_path g p" "hd p = start" "last p = target"
      using p by (simp_all add: path_between_def)
    have node: "HasNode g target"
      using is_path_last_edge[OF ip(1)] False HasEdge_target[OF wf] by (auto simp: ip)
    have "da target \<noteq> PInf"
    proof
      assume "da target = PInf"
      then have "PInf \<le> path_cost g p" using low[OF p] by simp
      then have "path_cost g p = PInf" by (rule PInf_le)
      then show False using fin by simp
    qed
    then show ?thesis using i6[OF node] by blast
  qed
  then obtain r where r: "chain pr start (target # r)" "is_path g (rev (target # r))"
      "path_cost g (rev (target # r)) = da target"
    using i9 by blast
  have w: "walk_back pr start target [target] = Some (target # r)"
    using walk_back_chain[OF r(1), of "[target]"] by simp
  have res: "DijkstraTo g start target = Some (rev (target # r), length (target # r), da target)"
    using some w by (simp add: DijkstraTo_def Let_def case_prod_unfold pr_def da_def)
  have "hd (rev (target # r)) = last (target # r)" by (rule hd_rev)
  then have q: "path_between g start target (rev (target # r))"
    using r(2) hd_rev_chain[OF r(1)] by (simp add: path_between_def)
  show ?thesis
    using res q low r(3) by (intro exI[of _ "rev (target # r)"]) simp
qed

lemma DijkstraTo_no_finite_path:
  fixes g :: "('k::default) graphData"
  assumes wf: "wf_graph g" and nn: "nonneg_weights g"
    and no: "\<not> (\<exists>p. path_between g start target p \<and> path_cost g p < PInf)"
  shows "DijkstraTo g start target = Some ([], 0, PInf)"
proof -
  define da where "da = dist_at (fst (Dijkstra g start))"
  define pr where "pr = snd (Dijkstra g start)"
  have inv: "dijkstra_inv g start [] (Dijkstra g start)"
    using wf nn by (rule Dijkstra_inv_final)
  have i5: "\<And>v. 0 \<le> da v"
    and i6': "\<And>v. pr v \<noteq> None \<Longrightarrow> da v \<noteq> PInf"
    and i9: "\<And>v. pr v \<noteq> None \<Longrightarrow>
          \<exists>r. chain pr start (v # r) \<and> is_path g (rev (v # r)) \<and> path_cost g (rev (v # r)) = da v"
    using inv unfolding dijkstra_inv_def da_def pr_def by (simp, simp, simp)
  have "pr target = None"
  proof (rule ccontr)
    assume some: "pr target \<noteq> None"
    then obtain r where r: "chain pr start (target # r)" "is_path g (rev (target # r))"
        "path_cost g (rev (target # r)) = da target"
      using i9 by blast
    have "hd (rev (target # r)) = last (target # r)" by (rule hd_rev)
    then have q: "path_between g start target (rev (target # r))"
      using r(2) hd_rev_chain[OF r(1)] by (simp add: path_between_def)
    have "da target < PInf"
      using i5[of target] i6'[OF some] by (rule nonneg_less_PInf)
    then show False
      using no q r(3) by auto
  qed
  then show ?thesis
    by (simp add: DijkstraTo_def Let_def case_prod_unfold pr_def)
qed

text \<open>
  C1. In a graph whose edge weights are all non-negative, for every target that some
  path of finite cost reaches from the start, \<^verbatim>\<open>DijkstraTo\<close> returns a path from start to
  target that follows adjacency entries, its node count, and as cost the cost of that
  path; no path from start to target has a smaller cost. The cost of a path is the
  \<^verbatim>\<open>float64\<close> sum of its weights taken in path order, which is what the program adds up.
\<close>

theorem DijkstraTo_cheapest:
  fixes g :: "('k::default) graphData"
  assumes "wf_graph g" and "nonneg_weights g"
    and "path_between g start target p" and "path_cost g p < PInf"
  shows "\<exists>q. DijkstraTo g start target = Some (q, length q, path_cost g q)
           \<and> path_between g start target q
           \<and> (\<forall>p'. path_between g start target p' \<longrightarrow> path_cost g q \<le> path_cost g p')"
  using assms by (rule DijkstraTo_found)

theorem DijkstraTo_cheapest_witness:
  "wf_graph [(Node (1::nat), [(Node 2, Fin 1), (Node 3, Fin 5)]), (Node 2, [(Node 3, Fin 1)]), (Node 3, [])]
   \<and> nonneg_weights [(Node (1::nat), [(Node 2, Fin 1), (Node 3, Fin 5)]), (Node 2, [(Node 3, Fin 1)]), (Node 3, [])]
   \<and> path_between [(Node (1::nat), [(Node 2, Fin 1), (Node 3, Fin 5)]), (Node 2, [(Node 3, Fin 1)]), (Node 3, [])]
        (Node 1) (Node 3) [Node 1, Node 3]
   \<and> path_cost [(Node (1::nat), [(Node 2, Fin 1), (Node 3, Fin 5)]), (Node 2, [(Node 3, Fin 1)]), (Node 3, [])]
        [Node 1, Node 3] = Fin 5
   \<and> DijkstraTo [(Node (1::nat), [(Node 2, Fin 1), (Node 3, Fin 5)]), (Node 2, [(Node 3, Fin 1)]), (Node 3, [])]
        (Node 1) (Node 3) = Some ([Node 1, Node 2, Node 3], 3, Fin 2)
   \<and> path_cost [(Node (1::nat), [(Node 2, Fin 1), (Node 3, Fin 5)]), (Node 2, [(Node 3, Fin 1)]), (Node 3, [])]
        [Node 1, Node 2, Node 3] = Fin 2"
proof -
  let ?g = "[(Node (1::nat), [(Node 2, Fin 1), (Node 3, Fin 5)]), (Node 2, [(Node 3, Fin 1)]), (Node 3, [])]"
  have w: "wf_graph ?g"
    by (simp add: wf_graph_def)
  have n: "nonneg_weights ?g"
    by (simp add: nonneg_weights_def zero_float64_def)
  have p: "path_between ?g (Node 1) (Node 3) [Node 1, Node 3]"
    by (simp add: path_between_def HasEdge_def)
  have f: "path_cost ?g [Node 1, Node 3] = Fin 5"
    by (simp add: path_cost_def weight_def adjacency_def zero_float64_def rnd_Ints)
  have f': "path_cost ?g [Node 1, Node 3] < PInf"
    unfolding f by simp
  have c: "path_cost ?g [Node 1, Node 2, Node 3] = Fin 2"
    by (simp add: path_cost_def weight_def adjacency_def zero_float64_def rnd_Ints)
  have d: "DijkstraTo ?g (Node 1) (Node 3) = Some ([Node 1, Node 2, Node 3], 3, Fin 2)"
    by (simp add: eval_defs rnd_Ints)
  show ?thesis
    using w n p f c d DijkstraTo_cheapest[OF w n p f']
    by simp
qed

text \<open>
  An edge of infinite weight is non-negative and is a path to its end point, but it is
  never relaxed, so the path returned is empty.
\<close>

theorem DijkstraTo_infinite_edge:
  "wf_graph [(Node (1::nat), [(Node 2, PInf)]), (Node 2, [])]
   \<and> nonneg_weights [(Node (1::nat), [(Node 2, PInf)]), (Node 2, [])]
   \<and> path_between [(Node (1::nat), [(Node 2, PInf)]), (Node 2, [])] (Node 1) (Node 2) [Node 1, Node 2]
   \<and> DijkstraTo [(Node (1::nat), [(Node 2, PInf)]), (Node 2, [])] (Node 1) (Node 2) = Some ([], 0, PInf)
   \<and> \<not> path_between [(Node (1::nat), [(Node 2, PInf)]), (Node 2, [])] (Node 1) (Node 2) []"
  by (simp add: eval_defs path_between_def HasEdge_def wf_graph_def nonneg_weights_def zero_float64_def)

text \<open>
  C5. For start and target that differ, \<^verbatim>\<open>BFSTo\<close> returns the empty path with length 0
  and infinite cost exactly when no path leads from start to target. \<^verbatim>\<open>DijkstraTo\<close>
  returns it whenever no path leads from start to target; when no weight is negative,
  \<^verbatim>\<open>DijkstraTo\<close> returns, and returns it exactly when no path from start to target has a
  finite cost. The unreachable outcome is the value \<open>Some ([], 0, PInf)\<close>, a normal
  return.
\<close>

theorem unreachable_sentinel:
  fixes g :: "('k::default) graphData"
  assumes "wf_graph g" and "start \<noteq> target"
  shows "(\<exists>r. BFSTo g start target = Some r)
       \<and> (BFSTo g start target = Some ([], 0, PInf)) = (\<not> (\<exists>p. path_between g start target p))
       \<and> (\<not> (\<exists>p. path_between g start target p) \<longrightarrow> DijkstraTo g start target = Some ([], 0, PInf))
       \<and> (nonneg_weights g \<longrightarrow>
            (\<exists>r. DijkstraTo g start target = Some r)
            \<and> (DijkstraTo g start target = Some ([], 0, PInf))
                = (\<not> (\<exists>p. path_between g start target p \<and> path_cost g p < PInf)))"
proof -
  have bfs: "(\<exists>r. BFSTo g start target = Some r)
       \<and> (BFSTo g start target = Some ([], 0, PInf)) = (\<not> (\<exists>p. path_between g start target p))"
  proof (cases "\<exists>p. path_between g start target p")
    case True
    then obtain p where p: "path_between g start target p" by blast
    obtain q where q: "BFSTo g start target = Some (q, length q, Fin (real (length q - 1)))"
        "path_between g start target q"
      using BFSTo_found[OF assms(1) assms(2)[symmetric] p] by blast
    then have "BFSTo g start target \<noteq> Some ([], 0, PInf)"
      by (auto simp: path_between_def)
    then show ?thesis using True q(1) by simp
  next
    case False
    then show ?thesis
      using BFSTo_unreachable[OF assms(1) assms(2)[symmetric] False] by simp
  qed
  have dij: "(\<exists>r. DijkstraTo g start target = Some r)
            \<and> (DijkstraTo g start target = Some ([], 0, PInf))
                = (\<not> (\<exists>p. path_between g start target p \<and> path_cost g p < PInf))"
    if nn: "nonneg_weights g"
  proof (cases "\<exists>p. path_between g start target p \<and> path_cost g p < PInf")
    case True
    then obtain p where p: "path_between g start target p" "path_cost g p < PInf" by blast
    obtain q where q: "DijkstraTo g start target = Some (q, length q, path_cost g q)"
        "path_between g start target q"
      using DijkstraTo_found[OF assms(1) nn p] by blast
    then have "DijkstraTo g start target \<noteq> Some ([], 0, PInf)"
      by (auto simp: path_between_def)
    then show ?thesis using True q(1) by simp
  next
    case False
    then show ?thesis
      using DijkstraTo_no_finite_path[OF assms(1) nn False] by simp
  qed
  show ?thesis
    using bfs dij DijkstraTo_unreachable[of g start target] by blast
qed

theorem unreachable_sentinel_witness:
  "wf_graph [(Node (1::nat), [(Node 2, Fin 1)]), (Node 2, [(Node 1, Fin 1)]), (Node 3, [])]
   \<and> nonneg_weights [(Node (1::nat), [(Node 2, Fin 1)]), (Node 2, [(Node 1, Fin 1)]), (Node 3, [])]
   \<and> BFSTo [(Node (1::nat), [(Node 2, Fin 1)]), (Node 2, [(Node 1, Fin 1)]), (Node 3, [])]
        (Node 1) (Node 3) = Some ([], 0, PInf)
   \<and> DijkstraTo [(Node (1::nat), [(Node 2, Fin 1)]), (Node 2, [(Node 1, Fin 1)]), (Node 3, [])]
        (Node 1) (Node 3) = Some ([], 0, PInf)
   \<and> \<not> (\<exists>p. path_between [(Node (1::nat), [(Node 2, Fin 1)]), (Node 2, [(Node 1, Fin 1)]), (Node 3, [])]
        (Node 1) (Node 3) p)"
proof -
  let ?g = "[(Node (1::nat), [(Node 2, Fin 1)]), (Node 2, [(Node 1, Fin 1)]), (Node 3, [])]"
  have w: "wf_graph ?g"
    by (simp add: wf_graph_def)
  have f: "nonneg_weights ?g"
    by (simp add: nonneg_weights_def zero_float64_def)
  have n: "Node (1::nat) \<noteq> Node 3"
    by simp
  have b: "BFSTo ?g (Node 1) (Node 3) = Some ([], 0, PInf)"
    by (simp add: bfs_eval)
  show ?thesis
    using w f b unreachable_sentinel[OF w n]
    by simp
qed

text \<open>
  An edge of infinite weight is never relaxed: the target stays without a predecessor
  and is reported unreachable although the edge is a path to it.
\<close>

theorem unreachable_sentinel_infinite_edge:
  "path_between [(Node (1::nat), [(Node 2, PInf)]), (Node 2, [])] (Node 1) (Node 2) [Node 1, Node 2]
   \<and> DijkstraTo [(Node (1::nat), [(Node 2, PInf)]), (Node 2, [])] (Node 1) (Node 2) = Some ([], 0, PInf)"
  by (simp add: eval_defs path_between_def HasEdge_def)

subsection \<open>What the hypotheses are for\<close>

text \<open>
  Finite weights are not enough for the target to be found. With two edges of weight
  \<^verbatim>\<open>2^1023\<close> in a row the sum overflows to \<^verbatim>\<open>math.Inf(1)\<close>, which is not less than the
  initial distance, so the second edge is never relaxed.
\<close>

lemma DijkstraTo_overflow_shape:
  assumes "rnd w = Fin w" and "rnd (w + w) = PInf" and "0 \<le> w"
  shows "wf_graph [(Node (1::nat), [(Node 2, Fin w)]), (Node 2, [(Node 3, Fin w)]), (Node 3, [])]
   \<and> nonneg_weights [(Node (1::nat), [(Node 2, Fin w)]), (Node 2, [(Node 3, Fin w)]), (Node 3, [])]
   \<and> path_between [(Node (1::nat), [(Node 2, Fin w)]), (Node 2, [(Node 3, Fin w)]), (Node 3, [])]
        (Node 1) (Node 3) [Node 1, Node 2, Node 3]
   \<and> path_cost [(Node (1::nat), [(Node 2, Fin w)]), (Node 2, [(Node 3, Fin w)]), (Node 3, [])]
        [Node 1, Node 2, Node 3] = PInf
   \<and> DijkstraTo [(Node (1::nat), [(Node 2, Fin w)]), (Node 2, [(Node 3, Fin w)]), (Node 3, [])]
        (Node 1) (Node 3) = Some ([], 0, PInf)"
proof -
  have r: "rnd (2 * w) = PInf"
    using assms(2) by simp
  show ?thesis
    using assms(1,3) r
    by (simp add: eval_defs path_between_def HasEdge_def wf_graph_def nonneg_weights_def
        path_cost_def weight_def)
qed

lemma DijkstraTo_overflow:
  "wf_graph [(Node (1::nat), [(Node 2, Fin (2 ^ 1023))]), (Node 2, [(Node 3, Fin (2 ^ 1023))]), (Node 3, [])]
   \<and> nonneg_weights [(Node (1::nat), [(Node 2, Fin (2 ^ 1023))]), (Node 2, [(Node 3, Fin (2 ^ 1023))]), (Node 3, [])]
   \<and> path_between [(Node (1::nat), [(Node 2, Fin (2 ^ 1023))]), (Node 2, [(Node 3, Fin (2 ^ 1023))]), (Node 3, [])]
        (Node 1) (Node 3) [Node 1, Node 2, Node 3]
   \<and> path_cost [(Node (1::nat), [(Node 2, Fin (2 ^ 1023))]), (Node 2, [(Node 3, Fin (2 ^ 1023))]), (Node 3, [])]
        [Node 1, Node 2, Node 3] = PInf
   \<and> DijkstraTo [(Node (1::nat), [(Node 2, Fin (2 ^ 1023))]), (Node 2, [(Node 3, Fin (2 ^ 1023))]), (Node 3, [])]
        (Node 1) (Node 3) = Some ([], 0, PInf)"
proof -
  have a: "rnd (2 ^ 1023) = Fin (2 ^ 1023)"
    using is_float64_big by (rule rnd_float64)
  have b: "rnd (2 ^ 1023 + 2 ^ 1023) = PInf"
    using fadd_overflow by (simp only: fadd.simps)
  have c: "(0::real) \<le> 2 ^ 1023"
    by (rule zero_le_power) simp
  show ?thesis
    using a b c by (rule DijkstraTo_overflow_shape)
qed

text \<open>
  Rounding decides which path is returned. The path over the nodes 2, 3 and 4 carries
  the weights \<^verbatim>\<open>2^53\<close>, 1, 1 and 1, which add up to \<^verbatim>\<open>2^53 + 3\<close>; the edge from 1 to 5
  weighs \<^verbatim>\<open>2^53 + 2\<close>. Adding 1 to \<^verbatim>\<open>2^53\<close> rounds back to \<^verbatim>\<open>2^53\<close>, so the program sees
  the long path at \<^verbatim>\<open>2^53\<close> and returns it.
\<close>

lemma DijkstraTo_rounding_shape:
  assumes "rnd a = Fin a" and "rnd b = Fin b" and "rnd (a + 1) = Fin a" and "a < b" and "0 \<le> a"
  shows "DijkstraTo [(Node (1::nat), [(Node 2, Fin a), (Node 5, Fin b)]), (Node 2, [(Node 3, Fin 1)]),
            (Node 3, [(Node 4, Fin 1)]), (Node 4, [(Node 5, Fin 1)]), (Node 5, [])] (Node 1) (Node 5)
          = Some ([Node 1, Node 2, Node 3, Node 4, Node 5], 5, Fin a)
   \<and> path_cost [(Node (1::nat), [(Node 2, Fin a), (Node 5, Fin b)]), (Node 2, [(Node 3, Fin 1)]),
            (Node 3, [(Node 4, Fin 1)]), (Node 4, [(Node 5, Fin 1)]), (Node 5, [])]
          [Node 1, Node 2, Node 3, Node 4, Node 5] = Fin a
   \<and> path_between [(Node (1::nat), [(Node 2, Fin a), (Node 5, Fin b)]), (Node 2, [(Node 3, Fin 1)]),
            (Node 3, [(Node 4, Fin 1)]), (Node 4, [(Node 5, Fin 1)]), (Node 5, [])]
          (Node 1) (Node 5) [Node 1, Node 5]
   \<and> path_cost [(Node (1::nat), [(Node 2, Fin a), (Node 5, Fin b)]), (Node 2, [(Node 3, Fin 1)]),
            (Node 3, [(Node 4, Fin 1)]), (Node 4, [(Node 5, Fin 1)]), (Node 5, [])]
          [Node 1, Node 5] = Fin b"
  using assms
  by (simp add: eval_defs path_between_def HasEdge_def path_cost_def weight_def)

lemma is_float64_example: "is_float64 9007199254740994"
  unfolding is_float64_def
proof (intro exI conjI)
  show "\<bar>4503599627370497 :: int\<bar> < 2 ^ 53"
    by simp
  show "- 1074 \<le> (1::int)" "(1::int) \<le> 971"
    by simp_all
  show "(9007199254740994::real) = of_int 4503599627370497 * 2 powi 1"
    by simp
qed

lemma DijkstraTo_rounding:
  "DijkstraTo [(Node (1::nat), [(Node 2, Fin 9007199254740992), (Node 5, Fin 9007199254740994)]),
            (Node 2, [(Node 3, Fin 1)]), (Node 3, [(Node 4, Fin 1)]), (Node 4, [(Node 5, Fin 1)]),
            (Node 5, [])] (Node 1) (Node 5)
          = Some ([Node 1, Node 2, Node 3, Node 4, Node 5], 5, Fin 9007199254740992)
   \<and> path_cost [(Node (1::nat), [(Node 2, Fin 9007199254740992), (Node 5, Fin 9007199254740994)]),
            (Node 2, [(Node 3, Fin 1)]), (Node 3, [(Node 4, Fin 1)]), (Node 4, [(Node 5, Fin 1)]),
            (Node 5, [])]
          [Node 1, Node 2, Node 3, Node 4, Node 5] = Fin 9007199254740992
   \<and> path_between [(Node (1::nat), [(Node 2, Fin 9007199254740992), (Node 5, Fin 9007199254740994)]),
            (Node 2, [(Node 3, Fin 1)]), (Node 3, [(Node 4, Fin 1)]), (Node 4, [(Node 5, Fin 1)]),
            (Node 5, [])]
          (Node 1) (Node 5) [Node 1, Node 5]
   \<and> path_cost [(Node (1::nat), [(Node 2, Fin 9007199254740992), (Node 5, Fin 9007199254740994)]),
            (Node 2, [(Node 3, Fin 1)]), (Node 3, [(Node 4, Fin 1)]), (Node 4, [(Node 5, Fin 1)]),
            (Node 5, [])]
          [Node 1, Node 5] = Fin 9007199254740994"
proof -
  have a: "rnd 9007199254740992 = Fin 9007199254740992"
    by (simp add: rnd_Ints)
  have b: "rnd 9007199254740994 = Fin 9007199254740994"
    using is_float64_example by (rule rnd_float64)
  have c: "rnd (9007199254740992 + 1) = Fin 9007199254740992"
    using fadd_rounds by simp
  have d: "(9007199254740992::real) < 9007199254740994" "(0::real) \<le> 9007199254740992"
    by simp_all
  show ?thesis
    using a b c d by (rule DijkstraTo_rounding_shape)
qed

lemma walk_back_two_cycle:
  fixes previous :: "('k::default) Paths"
  assumes ab: "previous a = Some b" and ba: "previous b = Some a" and "a \<noteq> s" and "b \<noteq> s"
    and c: "c = a \<or> c = b"
  shows "walk_back previous s c path = None"
proof (cases "walk_back previous s c path")
  case None
  then show ?thesis .
next
  case (Some y)
  have "previous = previous \<longrightarrow> s = s \<longrightarrow> c \<noteq> a \<and> c \<noteq> b"
  proof (rule walk_back.raw_induct[where
        P = "\<lambda>prev start current path y. prev = previous \<longrightarrow> start = s \<longrightarrow> current \<noteq> a \<and> current \<noteq> b",
        OF _ Some])
    fix wb :: "'k Paths \<Rightarrow> 'k Node \<Rightarrow> 'k Node \<Rightarrow> 'k Node list \<Rightarrow> 'k Node list option"
      and prev start current path y
    assume IH: "\<And>prev start current path y. wb prev start current path = Some y \<Longrightarrow>
        prev = previous \<longrightarrow> start = s \<longrightarrow> current \<noteq> a \<and> current \<noteq> b"
      and eq: "(if current \<noteq> start
        then wb prev start (prev_at prev current) (path @ [prev_at prev current])
        else Some path) = Some y"
    show "prev = previous \<longrightarrow> start = s \<longrightarrow> current \<noteq> a \<and> current \<noteq> b"
    proof (intro impI)
      assume p: "prev = previous" and s: "start = s"
      show "current \<noteq> a \<and> current \<noteq> b"
      proof (rule ccontr)
        assume "\<not> (current \<noteq> a \<and> current \<noteq> b)"
        then have cur: "current = a \<or> current = b" by blast
        then have "current \<noteq> start" using assms(3,4) s by auto
        then have "wb prev start (prev_at prev current) (path @ [prev_at prev current]) = Some y"
          using eq by simp
        then have "prev_at prev current \<noteq> a \<and> prev_at prev current \<noteq> b"
          using IH p s by blast
        then show False
          using cur ab ba p by (auto simp: prev_at_def)
      qed
    qed
  qed
  then show ?thesis using c by simp
qed

text \<open>
  With negative weights the walk back need not end. Node 3 lowers the distance of node
  2 after node 2 has set the predecessor of node 3, so the two point at each other and
  the loop that collects the path from node 3 never meets the start.
\<close>

lemma DijkstraTo_negative_cycle:
  "path_between [(Node (1::nat), [(Node 2, Fin 1)]), (Node 2, [(Node 3, Fin (- 5))]), (Node 3, [(Node 2, Fin (- 5))])]
      (Node 1) (Node 3) [Node 1, Node 2, Node 3]
   \<and> DijkstraTo [(Node (1::nat), [(Node 2, Fin 1)]), (Node 2, [(Node 3, Fin (- 5))]), (Node 3, [(Node 2, Fin (- 5))])]
      (Node 1) (Node 3) = None"
proof -
  let ?g = "[(Node (1::nat), [(Node 2, Fin 1)]), (Node 2, [(Node 3, Fin (- 5))]), (Node 3, [(Node 2, Fin (- 5))])]"
  have p: "path_between ?g (Node 1) (Node 3) [Node 1, Node 2, Node 3]"
    by (simp add: path_between_def HasEdge_def)
  have a: "snd (Dijkstra ?g (Node 1)) (Node 3) = Some (Node 2)"
    by (simp add: Dijkstra_def scan_min_def delete_at_def relax_def adjacency_def dist_at_def
        zero_float64_def Let_def dijkstra_loop.simps rnd_Ints)
  have b: "snd (Dijkstra ?g (Node 1)) (Node 2) = Some (Node 3)"
    by (simp add: Dijkstra_def scan_min_def delete_at_def relax_def adjacency_def dist_at_def
        zero_float64_def Let_def dijkstra_loop.simps rnd_Ints)
  have "walk_back (snd (Dijkstra ?g (Node 1))) (Node 1) (Node 3) [Node 3] = None"
    using a b by (rule walk_back_two_cycle) simp_all
  then have "DijkstraTo ?g (Node 1) (Node 3) = None"
    using a by (simp add: DijkstraTo_def case_prod_unfold Let_def)
  with p show ?thesis by simp
qed

section \<open>Copy and shared state (graph/graph.go)\<close>

text \<open>
  Go maps are references: two \<^verbatim>\<open>graphData\<close> values could share an inner map, and then a
  write through one would show through the other. To state that \<^verbatim>\<open>Copy\<close> shares nothing,
  the maps live in a store. A graph is the address of its outer map
  \<^verbatim>\<open>map[Node[K]]map[Node[K]]float64\<close>, whose values are addresses of inner maps
  \<^verbatim>\<open>map[Node[K]]float64\<close>; \<^verbatim>\<open>make\<close> allocates the next free address.
\<close>

record 'k store =
  outers :: "('k Node \<times> nat) list list"
  inners :: "'k adjacency list"

text \<open>
  Reading the map at an address. An address that was never allocated reads as the empty
  map; a valid store (below) uses none.
\<close>

definition deref :: "'a list list \<Rightarrow> nat \<Rightarrow> 'a list" where
  "deref objs r = (if r < length objs then objs ! r else [])"

text \<open>The graph a reference stands for: every inner address replaced by the map it holds.\<close>

definition graph_of :: "'k store \<Rightarrow> nat \<Rightarrow> 'k graphData" where
  "graph_of h g = map (\<lambda>(n, r). (n, deref (inners h) r)) (deref (outers h) g)"

definition st_newGraphData :: "'k store \<Rightarrow> 'k store \<times> nat" where
  "st_newGraphData h = (h\<lparr>outers := outers h @ [[]]\<rparr>, length (outers h))"

definition st_AddNode :: "'k store \<Rightarrow> nat \<Rightarrow> 'k Node \<Rightarrow> 'k store" where
  "st_AddNode h g n =
     (if map_of (deref (outers h) g) n = None
      then h\<lparr>outers := (outers h)[g := deref (outers h) g @ [(n, length (inners h))]],
             inners := inners h @ [[]]\<rparr>
      else h)"

text \<open>
  The assignment \<^verbatim>\<open>g.Adjacencies[u][v] = w\<close>. Every caller has made sure that \<open>u\<close> is a
  key of the outer map; where it is not, Go would panic on the nil inner map, and the
  model leaves the store as it is.
\<close>

definition st_set_weight :: "'k store \<Rightarrow> nat \<Rightarrow> 'k Node \<Rightarrow> 'k Node \<Rightarrow> float64 \<Rightarrow> 'k store" where
  "st_set_weight h g u v w =
     (case map_of (deref (outers h) g) u of
        None \<Rightarrow> h
      | Some r \<Rightarrow> h\<lparr>inners := (inners h)[r := AList.update v w (deref (inners h) r)]\<rparr>)"

definition st_add_endpoints :: "'k store \<Rightarrow> nat \<Rightarrow> 'k Node \<Rightarrow> 'k Node \<Rightarrow> 'k store" where
  "st_add_endpoints h g u v =
     (let h1 = (if map_of (deref (outers h) g) u = None then st_AddNode h g u else h)
      in if map_of (deref (outers h1) g) v = None then st_AddNode h1 g v else h1)"

definition st_Directed_AddEdge ::
  "'k store \<Rightarrow> nat \<Rightarrow> 'k Node \<Rightarrow> 'k Node \<Rightarrow> float64 \<Rightarrow> 'k store" where
  "st_Directed_AddEdge h g u v w = st_set_weight (st_add_endpoints h g u v) g u v w"

definition st_Undirected_AddEdge ::
  "'k store \<Rightarrow> nat \<Rightarrow> 'k Node \<Rightarrow> 'k Node \<Rightarrow> float64 \<Rightarrow> 'k store" where
  "st_Undirected_AddEdge h g u v w =
     st_set_weight (st_set_weight (st_add_endpoints h g u v) g u v w) g v u w"

text \<open>The closure \<^verbatim>\<open>getOrCreate\<close> of \<^verbatim>\<open>Copy\<close>, with its registry \<^verbatim>\<open>nodesMap\<close>.\<close>

definition getOrCreate :: "('k \<rightharpoonup> 'k Node) \<Rightarrow> 'k \<Rightarrow> 'k Node \<times> ('k \<rightharpoonup> 'k Node)" where
  "getOrCreate nodesMap ident =
     (case nodesMap ident of
        Some node \<Rightarrow> (node, nodesMap)
      | None \<Rightarrow> (Node ident, nodesMap(ident \<mapsto> Node ident)))"

text \<open>The body of the inner loop of \<^verbatim>\<open>Copy\<close>, for the entry \<open>(nei, weight)\<close>.\<close>

definition copy_entry ::
  "nat \<Rightarrow> 'k Node \<Rightarrow> 'k store \<times> ('k \<rightharpoonup> 'k Node) \<Rightarrow> 'k Node \<times> float64
     \<Rightarrow> 'k store \<times> ('k \<rightharpoonup> 'k Node)" where
  "copy_entry newG newNode hm e =
     (let (newNeighbor, nodesMap) = getOrCreate (snd hm) (ID (fst e))
      in (st_set_weight (fst hm) newG newNode newNeighbor (snd e), nodesMap))"

text \<open>
  The body of the outer loop, for the node \<open>n\<close> whose inner map is at address \<open>r\<close>.
\<close>

definition copy_node ::
  "nat \<Rightarrow> 'k store \<times> ('k \<rightharpoonup> 'k Node) \<Rightarrow> 'k Node \<times> nat \<Rightarrow> 'k store \<times> ('k \<rightharpoonup> 'k Node)" where
  "copy_node newG hm e =
     (let (newNode, nodesMap) = getOrCreate (snd hm) (ID (fst e));
          h = fst hm;
          h1 = (if map_of (deref (outers h) newG) newNode = None
                then h\<lparr>outers := (outers h)[newG := deref (outers h) newG @ [(newNode, length (inners h))]],
                       inners := inners h @ [[]]\<rparr>
                else h)
      in foldl (copy_entry newG newNode) (h1, nodesMap) (deref (inners h1) (snd e)))"

definition Copy :: "'k store \<Rightarrow> nat \<Rightarrow> 'k store \<times> nat" where
  "Copy h g =
     (let (h0, newG) = st_newGraphData h;
          (h1, nodesMap) = foldl (copy_node newG) (h0, Map.empty) (deref (outers h) g)
      in (h1, newG))"

text \<open>
  A store as Go's runtime keeps it: map keys are unique, every inner address in use is
  allocated, and no inner map is referenced from two places.
\<close>

definition valid_store :: "'k store \<Rightarrow> bool" where
  "valid_store h =
     (list_all (\<lambda>al. distinct (map fst al) \<and> list_all (\<lambda>r. r < length (inners h)) (map snd al))
               (outers h)
      \<and> distinct (concat (map (map snd) (outers h)))
      \<and> list_all (\<lambda>a. distinct (map fst a)) (inners h))"

lemma deref_append: "r < length xs \<Longrightarrow> deref (xs @ ys) r = deref xs r"
  by (simp add: deref_def nth_append)

lemma deref_update: "deref (xs[i := y]) r = (if r = i \<and> i < length xs then y else deref xs r)"
  by (simp add: deref_def)

lemma deref_nth: "r < length xs \<Longrightarrow> deref xs r = xs ! r"
  by (simp add: deref_def)

lemma distinct_concat_nth:
  "distinct (concat yss) \<Longrightarrow> i < j \<Longrightarrow> j < length yss \<Longrightarrow> set (yss ! i) \<inter> set (yss ! j) = {}"
proof (induction yss arbitrary: i j)
  case Nil
  then show ?case by simp
next
  case (Cons ys yss)
  show ?case
  proof (cases i)
    case 0
    then obtain j' where j: "j = Suc j'" using Cons.prems(2) by (cases j) auto
    then have "yss ! j' \<in> set yss" using Cons.prems(3) by simp
    then show ?thesis using Cons.prems(1) 0 j by auto
  next
    case (Suc i')
    then obtain j' where j: "j = Suc j'" using Cons.prems(2) by (cases j) auto
    then show ?thesis using Cons.IH[of i' j'] Cons.prems Suc by simp
  qed
qed

lemma distinct_concat_nth_neq:
  assumes "distinct (concat yss)" "i \<noteq> j" "i < length yss" "j < length yss"
  shows "set (yss ! i) \<inter> set (yss ! j) = {}"
proof (cases "i < j")
  case True
  then show ?thesis using assms distinct_concat_nth[of yss i j] by simp
next
  case False
  then have "j < i" using assms(2) by simp
  then show ?thesis using assms distinct_concat_nth[of yss j i] by blast
qed

lemma distinct_concat_each: "distinct (concat yss) \<Longrightarrow> i < length yss \<Longrightarrow> distinct (yss ! i)"
proof (induction yss arbitrary: i)
  case Nil
  then show ?case by simp
next
  case (Cons ys yss)
  then show ?case by (cases i) auto
qed

lemma distinct_concat_snoc_at:
  "distinct (concat yss) \<Longrightarrow> a < length yss \<Longrightarrow> x \<notin> set (concat yss) \<Longrightarrow>
   distinct (concat (yss[a := yss ! a @ [x]]))"
proof (induction yss arbitrary: a)
  case Nil
  then show ?case by simp
next
  case (Cons ys yss)
  show ?case
  proof (cases a)
    case 0
    then show ?thesis using Cons.prems by auto
  next
    case (Suc a')
    have "set (concat (yss[a' := yss ! a' @ [x]])) \<subseteq> insert x (set (concat yss))"
      using Cons.prems(2) Suc
      by (auto simp: set_conv_nth[of "yss[a' := yss ! a' @ [x]]"] nth_list_update split: if_splits)
    then show ?thesis
      using Cons.IH[of a'] Cons.prems Suc by auto
  qed
qed

text \<open>What validity gives for one graph of the store.\<close>

lemma valid_keys: "valid_store h \<Longrightarrow> g < length (outers h) \<Longrightarrow> distinct (map fst (outers h ! g))"
  by (simp add: valid_store_def list_all_length)

lemma valid_refs:
  "valid_store h \<Longrightarrow> g < length (outers h) \<Longrightarrow> (n, r) \<in> set (outers h ! g) \<Longrightarrow> r < length (inners h)"
proof -
  assume v: "valid_store h" and g: "g < length (outers h)" and m: "(n, r) \<in> set (outers h ! g)"
  have "outers h ! g \<in> set (outers h)" using g by simp
  then have "list_all (\<lambda>r. r < length (inners h)) (map snd (outers h ! g))"
    using v by (simp add: valid_store_def list_all_iff)
  moreover have "r \<in> set (map snd (outers h ! g))" using m by force
  ultimately show ?thesis by (simp add: list_all_iff del: set_map)
qed

lemma valid_inner: "valid_store h \<Longrightarrow> r < length (inners h) \<Longrightarrow> distinct (map fst (inners h ! r))"
  by (simp add: valid_store_def list_all_length)

lemma valid_separate:
  assumes "valid_store h" "a \<noteq> b" "a < length (outers h)" "b < length (outers h)"
    "(n, r) \<in> set (outers h ! a)" "(m, r') \<in> set (outers h ! b)"
  shows "r \<noteq> r'"
proof -
  have "distinct (concat (map (map snd) (outers h)))"
    using assms(1) by (simp add: valid_store_def)
  then have "set (map (map snd) (outers h) ! a) \<inter> set (map (map snd) (outers h) ! b) = {}"
    using assms(2-4) by (intro distinct_concat_nth_neq) simp_all
  then have "snd ` set (outers h ! a) \<inter> snd ` set (outers h ! b) = {}"
    using assms(3,4) by simp
  then show ?thesis using assms(5,6) by force
qed

lemma valid_own:
  assumes "valid_store h" "a < length (outers h)"
  shows "distinct (map snd (outers h ! a))"
proof -
  have "distinct (concat (map (map snd) (outers h)))"
    using assms(1) by (simp add: valid_store_def)
  then have "distinct (map (map snd) (outers h) ! a)"
    using assms(2) by (intro distinct_concat_each) simp_all
  then show ?thesis using assms(2) by simp
qed

text \<open>A write through one graph leaves every other graph of the store as it was.\<close>

lemma st_set_weight_frame:
  assumes v: "valid_store h" and ab: "a \<noteq> b" "a < length (outers h)" "b < length (outers h)"
  shows "graph_of (st_set_weight h a u x w) b = graph_of h b"
proof (cases "map_of (deref (outers h) a) u")
  case None
  then show ?thesis by (simp add: st_set_weight_def)
next
  case (Some r)
  then have ra: "(u, r) \<in> set (outers h ! a)"
    using ab(2) by (auto simp: deref_nth dest: map_of_SomeD)
  have "deref ((inners h)[r := y]) r' = deref (inners h) r'" if "(m, r') \<in> set (outers h ! b)" for m r' y
    using valid_separate[OF v ab ra that] by (simp add: deref_update)
  then show ?thesis
    using Some ab(3) by (auto simp: graph_of_def st_set_weight_def deref_nth)
qed

lemma st_set_weight_outers: "outers (st_set_weight h a u x w) = outers h"
  by (cases "map_of (deref (outers h) a) u") (simp_all add: st_set_weight_def)

lemma st_set_weight_valid:
  assumes v: "valid_store h"
  shows "valid_store (st_set_weight h a u x w)"
proof (cases "map_of (deref (outers h) a) u")
  case None
  then show ?thesis using v by (simp add: st_set_weight_def)
next
  case (Some r)
  have "distinct (map fst y)" if "y \<in> set ((inners h)[r := AList.update x w (deref (inners h) r)])" for y
  proof -
    have "y \<in> insert (AList.update x w (deref (inners h) r)) (set (inners h))"
      using that set_update_subset_insert by fastforce
    moreover have "distinct (map fst (deref (inners h) r))"
      using valid_inner[OF v, of r] by (simp add: deref_def)
    ultimately show ?thesis
      using v by (auto simp: valid_store_def list_all_iff distinct_update)
  qed
  then show ?thesis
    using v Some by (simp add: st_set_weight_def valid_store_def list_all_iff)
qed

lemma st_AddNode_frame:
  assumes v: "valid_store h" and ab: "a \<noteq> b" "b < length (outers h)"
  shows "graph_of (st_AddNode h a n) b = graph_of h b"
proof (cases "map_of (deref (outers h) a) n")
  case (Some r)
  then show ?thesis by (simp add: st_AddNode_def)
next
  case None
  have "deref (inners h @ [[]]) r = deref (inners h) r" if "(m, r) \<in> set (outers h ! b)" for m r
    using valid_refs[OF v ab(2) that] by (simp add: deref_append)
  then show ?thesis
    using None ab by (auto simp: graph_of_def st_AddNode_def deref_nth deref_def[of "_[_ := _]"])
qed

lemma st_AddNode_length: "length (outers (st_AddNode h a n)) = length (outers h)"
  by (simp add: st_AddNode_def)

lemma st_AddNode_valid:
  assumes v: "valid_store h"
  shows "valid_store (st_AddNode h a n)"
proof (cases "map_of (deref (outers h) a) n = None \<and> a < length (outers h)")
  case False
  then have "st_AddNode h a n = h \<or> st_AddNode h a n = h\<lparr>inners := inners h @ [[]]\<rparr>"
    by (auto simp: st_AddNode_def list_update_beyond not_less)
  moreover have "valid_store (h\<lparr>inners := inners h @ [[]]\<rparr>)"
    using v unfolding valid_store_def list_all_iff by (fastforce simp: less_Suc_eq)
  ultimately show ?thesis
    using v by auto
next
  case True
  then have a: "a < length (outers h)" by simp
  have nn: "n \<notin> fst ` set (outers h ! a)"
    using True by (simp add: deref_nth[OF a] map_of_eq_None_iff)
  let ?L = "length (inners h)"
  let ?o = "(outers h)[a := outers h ! a @ [(n, ?L)]]"
  have eq: "st_AddNode h a n = h\<lparr>outers := ?o, inners := inners h @ [[]]\<rparr>"
    using True by (simp add: st_AddNode_def deref_nth[OF a])
  have old: "r < ?L" if "r \<in> set (concat (map (map snd) (outers h)))" for r
    using that v by (auto simp: valid_store_def list_all_iff)
  have 1: "distinct (map fst al) \<and> (\<forall>r \<in> set (map snd al). r < Suc ?L)" if "al \<in> set ?o" for al
  proof -
    have "al \<in> insert (outers h ! a @ [(n, ?L)]) (set (outers h))"
      using that set_update_subset_insert by fastforce
    then show ?thesis
      using v nn valid_keys[OF v a] valid_refs[OF v a]
      by (auto simp: valid_store_def list_all_iff less_Suc_eq)
  qed
  have "map (map snd) ?o = (map (map snd) (outers h))[a := map (map snd) (outers h) ! a @ [?L]]"
    using a by (simp add: map_update)
  moreover have "distinct (concat ((map (map snd) (outers h))[a := map (map snd) (outers h) ! a @ [?L]]))"
    using v a old by (intro distinct_concat_snoc_at) (auto simp: valid_store_def)
  ultimately have 2: "distinct (concat (map (map snd) ?o))" by simp
  have 3: "list_all (\<lambda>a. distinct (map fst a)) (inners h @ [[]])"
    using v by (simp add: valid_store_def)
  show ?thesis
    unfolding eq valid_store_def using 1 2 3 by (simp add: list_all_iff)
qed

lemma st_add_endpoints_valid: "valid_store h \<Longrightarrow> valid_store (st_add_endpoints h a u v)"
  by (simp add: st_add_endpoints_def Let_def st_AddNode_valid)

lemma st_add_endpoints_length: "length (outers (st_add_endpoints h a u v)) = length (outers h)"
  by (simp add: st_add_endpoints_def Let_def st_AddNode_length)

lemma st_add_endpoints_frame:
  assumes "valid_store h" "a \<noteq> b" "b < length (outers h)"
  shows "graph_of (st_add_endpoints h a u v) b = graph_of h b"
proof -
  have 1: "graph_of (st_AddNode h a u) b = graph_of h b"
    using assms by (rule st_AddNode_frame)
  have "graph_of (st_AddNode (st_AddNode h a u) a v) b = graph_of (st_AddNode h a u) b"
    using st_AddNode_valid[OF assms(1)] assms(2)
    by (rule st_AddNode_frame) (simp add: st_AddNode_length assms(3))
  then have 2: "graph_of (st_AddNode (st_AddNode h a u) a v) b = graph_of h b"
    using 1 by simp
  have 3: "graph_of (st_AddNode h a v) b = graph_of h b"
    using assms by (rule st_AddNode_frame)
  show ?thesis
    using 1 2 3 by (simp add: st_add_endpoints_def Let_def)
qed

lemma st_Directed_AddEdge_frame:
  assumes "valid_store h" "a \<noteq> b" "a < length (outers h)" "b < length (outers h)"
  shows "graph_of (st_Directed_AddEdge h a u v w) b = graph_of h b"
proof -
  let ?h1 = "st_add_endpoints h a u v"
  have v1: "valid_store ?h1" using assms(1) by (rule st_add_endpoints_valid)
  have l1: "length (outers ?h1) = length (outers h)" by (rule st_add_endpoints_length)
  have "graph_of (st_set_weight ?h1 a u v w) b = graph_of ?h1 b"
    using v1 assms(2) by (rule st_set_weight_frame) (simp_all add: l1 assms)
  also have "\<dots> = graph_of h b"
    using assms(1,2,4) by (rule st_add_endpoints_frame)
  finally show ?thesis by (simp add: st_Directed_AddEdge_def)
qed

lemma st_Undirected_AddEdge_frame:
  assumes "valid_store h" "a \<noteq> b" "a < length (outers h)" "b < length (outers h)"
  shows "graph_of (st_Undirected_AddEdge h a u v w) b = graph_of h b"
proof -
  let ?h1 = "st_add_endpoints h a u v"
  let ?h2 = "st_set_weight ?h1 a u v w"
  have v1: "valid_store ?h1" using assms(1) by (rule st_add_endpoints_valid)
  have l1: "length (outers ?h1) = length (outers h)" by (rule st_add_endpoints_length)
  have v2: "valid_store ?h2" using v1 by (rule st_set_weight_valid)
  have l2: "length (outers ?h2) = length (outers h)" by (simp add: st_set_weight_outers l1)
  have "graph_of (st_set_weight ?h2 a v u w) b = graph_of ?h2 b"
    using v2 assms(2) by (rule st_set_weight_frame) (simp_all add: l2 assms)
  also have "\<dots> = graph_of ?h1 b"
    using v1 assms(2) by (rule st_set_weight_frame) (simp_all add: l1 assms)
  also have "\<dots> = graph_of h b"
    using assms(1,2,4) by (rule st_add_endpoints_frame)
  finally show ?thesis by (simp add: st_Undirected_AddEdge_def)
qed

subsection \<open>What Copy builds\<close>

definition reg_ok :: "('k \<rightharpoonup> 'k Node) \<Rightarrow> bool" where
  "reg_ok nodesMap = (\<forall>i n. nodesMap i = Some n \<longrightarrow> n = Node i)"

lemma getOrCreate_ok:
  "reg_ok m \<Longrightarrow> fst (getOrCreate m (ID n)) = n \<and> reg_ok (snd (getOrCreate m (ID n)))"
proof (cases "m (ID n)")
  case None
  assume "reg_ok m"
  then show ?thesis
    using None unfolding getOrCreate_def reg_ok_def by simp
next
  case (Some a)
  assume "reg_ok m"
  then have "a = Node (ID n)" using Some unfolding reg_ok_def by blast
  then show ?thesis
    using Some \<open>reg_ok m\<close> unfolding getOrCreate_def by simp
qed

lemma update_fresh: "k \<notin> fst ` set l \<Longrightarrow> AList.update k v l = l @ [(k, v)]"
  by (induction l) auto

lemma copy_entries:
  assumes "map_of (deref (outers h) c) newNode = Some rn" "rn < length (inners h)" "reg_ok m"
    "distinct (map fst a)" "fst ` set a \<inter> fst ` set (inners h ! rn) = {}"
  shows "fst (foldl (copy_entry c newNode) (h, m) a) = h\<lparr>inners := (inners h)[rn := inners h ! rn @ a]\<rparr>
       \<and> reg_ok (snd (foldl (copy_entry c newNode) (h, m) a))"
  using assms
proof (induction a arbitrary: h m)
  case Nil
  then show ?case by simp
next
  case (Cons e a)
  obtain nei wt where e: "e = (nei, wt)" by (cases e)
  let ?m1 = "snd (getOrCreate m (ID nei))"
  let ?h1 = "h\<lparr>inners := (inners h)[rn := inners h ! rn @ [(nei, wt)]]\<rparr>"
  have g: "fst (getOrCreate m (ID nei)) = nei" "reg_ok ?m1"
    using getOrCreate_ok[OF Cons.prems(3), of nei] by simp_all
  have fresh: "nei \<notin> fst ` set (inners h ! rn)"
    using Cons.prems(5) by (auto simp: e)
  have "st_set_weight h c newNode nei wt = ?h1"
    using Cons.prems(1,2) fresh by (simp add: st_set_weight_def deref_nth update_fresh)
  then have step: "copy_entry c newNode (h, m) e = (?h1, ?m1)"
    using g(1) by (simp add: copy_entry_def e case_prod_unfold)
  have p1: "map_of (deref (outers ?h1) c) newNode = Some rn" using Cons.prems(1) by simp
  have p2: "rn < length (inners ?h1)" using Cons.prems(2) by simp
  have p4: "distinct (map fst a)" using Cons.prems(4) by simp
  have p5: "fst ` set a \<inter> fst ` set (inners ?h1 ! rn) = {}"
    using Cons.prems(2,4,5) by (auto simp: e)
  have "?h1\<lparr>inners := (inners ?h1)[rn := inners ?h1 ! rn @ a]\<rparr>
        = h\<lparr>inners := (inners h)[rn := inners h ! rn @ e # a]\<rparr>"
    using Cons.prems(2) by (simp add: e)
  then show ?case
    using Cons.IH[OF p1 p2 g(2) p4 p5] by (simp add: step)
qed

text \<open>
  The store after \<^verbatim>\<open>Copy\<close> has iterated over the entries \<open>es\<close> of the source's outer map:
  one new outer map with the same keys, each pointing to a newly allocated inner map
  that holds the entries of the source's inner map.
\<close>

definition copied :: "'k store \<Rightarrow> ('k Node \<times> nat) list \<Rightarrow> 'k store" where
  "copied h es =
     h\<lparr>outers := outers h @ [zip (map fst es) [length (inners h)..<length (inners h) + length es]],
       inners := inners h @ map (\<lambda>e. inners h ! snd e) es\<rparr>"

lemma copy_nodes:
  assumes v: "valid_store h" and d: "distinct (map fst es)"
    and r: "\<forall>e \<in> set es. snd e < length (inners h)"
  shows "fst (foldl (copy_node (length (outers h))) (h\<lparr>outers := outers h @ [[]]\<rparr>, Map.empty) es)
           = copied h es
       \<and> reg_ok (snd (foldl (copy_node (length (outers h))) (h\<lparr>outers := outers h @ [[]]\<rparr>, Map.empty) es))"
  using d r
proof (induction es rule: rev_induct)
  case Nil
  show ?case by (simp add: copied_def reg_ok_def)
next
  case (snoc e es)
  obtain n rr where e: "e = (n, rr)" by (cases e)
  define c where "c = length (outers h)"
  define L where "L = length (inners h)"
  define zl where "zl = zip (map fst es) [L..<L + length es]"
  define ms where "ms = map (\<lambda>e. inners h ! snd e) es"
  define hm where "hm = foldl (copy_node c) (h\<lparr>outers := outers h @ [[]]\<rparr>, Map.empty) es"
  have IH: "fst hm = copied h es" "reg_ok (snd hm)"
    using snoc by (simp_all add: hm_def c_def)
  have hc: "fst hm = h\<lparr>outers := outers h @ [zl], inners := inners h @ ms\<rparr>"
    by (simp add: IH(1) copied_def zl_def ms_def L_def)
  have nfresh: "n \<notin> set (map fst es)" and rr: "rr < L"
    using snoc.prems by (simp_all add: e L_def)
  have g: "fst (getOrCreate (snd hm) (ID n)) = n" "reg_ok (snd (getOrCreate (snd hm) (ID n)))"
    using getOrCreate_ok[OF IH(2), of n] by simp_all
  have oc: "deref (outers (fst hm)) c = zl"
    by (simp add: hc deref_def c_def)
  have none: "map_of zl n = None"
    using nfresh by (simp add: zl_def map_of_zip_is_None)
  have len: "length (inners (fst hm)) = L + length es"
    by (simp add: hc L_def ms_def)
  define h1 where "h1 = h\<lparr>outers := outers h @ [zl @ [(n, L + length es)]],
                            inners := inners h @ ms @ [[]]\<rparr>"
  have h1: "(fst hm)\<lparr>outers := (outers (fst hm))[c := deref (outers (fst hm)) c @ [(n, length (inners (fst hm)))]],
                     inners := inners (fst hm) @ [[]]\<rparr> = h1"
    unfolding oc len by (simp add: hc h1_def c_def)
  have a1: "map_of (deref (outers h1) c) n = Some (L + length es)"
    using none by (simp add: h1_def deref_def c_def map_add_Some_iff)
  have a2: "L + length es < length (inners h1)"
    by (simp add: h1_def L_def ms_def)
  have src: "deref (inners h1) rr = inners h ! rr"
    using rr by (simp add: h1_def deref_def L_def nth_append)
  have a4: "distinct (map fst (inners h ! rr))"
    using valid_inner[OF v] rr by (simp add: L_def)
  have empty: "inners h1 ! (L + length es) = []"
    by (simp add: h1_def nth_append L_def ms_def)
  have a5: "fst ` set (inners h ! rr) \<inter> fst ` set (inners h1 ! (L + length es)) = {}"
    by (simp add: empty)
  note ce = copy_entries[OF a1 a2 g(2) a4 a5]
  have step: "copy_node c hm e = foldl (copy_entry c n) (h1, snd (getOrCreate (snd hm) (ID n))) (inners h ! rr)"
    using g(1) none h1 src by (simp add: copy_node_def e case_prod_unfold Let_def oc)
  have "[L..<L + length (es @ [e])] = [L..<L + length es] @ [L + length es]"
    by simp
  then have z: "zip (map fst (es @ [e])) [L..<L + length (es @ [e])] = zl @ [(n, L + length es)]"
    by (simp add: zl_def e del: upt_Suc)
  have "(inners h1)[L + length es := inners h1 ! (L + length es) @ inners h ! rr]
        = inners h @ ms @ [inners h ! rr]"
    unfolding empty by (simp add: h1_def L_def ms_def list_update_append)
  then have fin: "h1\<lparr>inners := (inners h1)[L + length es := inners h1 ! (L + length es) @ inners h ! rr]\<rparr>
        = copied h (es @ [e])"
    unfolding copied_def L_def[symmetric] z
    by (simp add: h1_def e ms_def)
  show ?case
    unfolding foldl_append foldl_Cons foldl_Nil c_def[symmetric] hm_def[symmetric] step
    using ce by (simp add: fin)
qed

lemma Copy_copied:
  assumes "valid_store h" "g < length (outers h)"
  shows "Copy h g = (copied h (outers h ! g), length (outers h))"
proof -
  have "\<forall>e \<in> set (outers h ! g). snd e < length (inners h)"
    using valid_refs[OF assms] by auto
  then have "fst (foldl (copy_node (length (outers h))) (h\<lparr>outers := outers h @ [[]]\<rparr>, Map.empty)
                (outers h ! g)) = copied h (outers h ! g)"
    using copy_nodes[OF assms(1) valid_keys[OF assms]] by blast
  then show ?thesis
    using assms(2) by (simp add: Copy_def st_newGraphData_def case_prod_unfold deref_nth)
qed

lemma copied_length: "length (outers (copied h es)) = Suc (length (outers h))"
  by (simp add: copied_def)

lemma copied_graph_old:
  assumes "valid_store h" "b < length (outers h)"
  shows "graph_of (copied h es) b = graph_of h b"
proof -
  have "deref (inners h @ ms) r = deref (inners h) r" if "(m, r) \<in> set (outers h ! b)" for m r ms
    using valid_refs[OF assms that] by (simp add: deref_append)
  then show ?thesis
    using assms(2) by (auto simp: graph_of_def copied_def deref_def[of "_ @ [_]"] nth_append deref_nth)
qed

lemma copied_graph_new:
  assumes "valid_store h" "g < length (outers h)"
  shows "graph_of (copied h (outers h ! g)) (length (outers h)) = graph_of h g"
proof -
  define es where "es = outers h ! g"
  define L where "L = length (inners h)"
  have r: "snd (es ! i) < L" if "i < length es" for i
    using valid_refs[OF assms, of "fst (es ! i)" "snd (es ! i)"] that by (simp add: es_def L_def)
  have "map (\<lambda>(n, r). (n, deref (inners h @ map (\<lambda>e. inners h ! snd e) es) r))
            (zip (map fst es) [L..<L + length es])
        = map (\<lambda>(n, r). (n, deref (inners h) r)) es"
  proof (rule nth_equalityI)
    show "length (map (\<lambda>(n, r). (n, deref (inners h @ map (\<lambda>e. inners h ! snd e) es) r))
            (zip (map fst es) [L..<L + length es]))
        = length (map (\<lambda>(n, r). (n, deref (inners h) r)) es)"
      by simp
  next
    fix i
    assume "i < length (map (\<lambda>(n, r). (n, deref (inners h @ map (\<lambda>e. inners h ! snd e) es) r))
            (zip (map fst es) [L..<L + length es]))"
    then have i: "i < length es" by simp
    have "deref (inners h @ map (\<lambda>e. inners h ! snd e) es) (L + i) = inners h ! snd (es ! i)"
      using i by (simp add: deref_def nth_append L_def)
    moreover have "deref (inners h) (snd (es ! i)) = inners h ! snd (es ! i)"
      using r[OF i] by (simp add: deref_def L_def)
    ultimately show "map (\<lambda>(n, r). (n, deref (inners h @ map (\<lambda>e. inners h ! snd e) es) r))
            (zip (map fst es) [L..<L + length es]) ! i
        = map (\<lambda>(n, r). (n, deref (inners h) r)) es ! i"
      using i by (simp add: case_prod_unfold)
  qed
  then show ?thesis
    using assms(2)
    by (simp add: graph_of_def copied_def deref_def[of "_ @ [_]"] deref_nth es_def L_def)
qed

lemma copied_valid:
  assumes v: "valid_store h" and d: "distinct (map fst es)"
    and r: "\<forall>e \<in> set es. snd e < length (inners h)"
  shows "valid_store (copied h es)"
proof -
  define L where "L = length (inners h)"
  define zl where "zl = zip (map fst es) [L..<L + length es]"
  define ms where "ms = map (\<lambda>e. inners h ! snd e) es"
  have eq: "copied h es = h\<lparr>outers := outers h @ [zl], inners := inners h @ ms\<rparr>"
    by (simp add: copied_def zl_def ms_def L_def)
  have zf: "map fst zl = map fst es" and zs: "map snd zl = [L..<L + length es]"
    by (simp_all add: zl_def)
  have old: "x < L" if "x \<in> set (concat (map (map snd) (outers h)))" for x
    using that v by (auto simp: valid_store_def list_all_iff L_def)
  have 1: "distinct (map fst al) \<and> (\<forall>x \<in> set (map snd al). x < length (inners h @ ms))"
    if "al \<in> set (outers h @ [zl])" for al
  proof (cases "al = zl")
    case True
    then show ?thesis using d by (simp add: zf zs L_def ms_def del: set_map)
  next
    case False
    then have "al \<in> set (outers h)" using that by simp
    then show ?thesis using v unfolding valid_store_def list_all_iff by fastforce
  qed
  have "set (concat (map (map snd) (outers h))) \<inter> set [L..<L + length es] = {}"
    using old by fastforce
  moreover have "distinct (concat (map (map snd) (outers h)))"
    using v by (simp add: valid_store_def)
  ultimately have 2: "distinct (concat (map (map snd) (outers h @ [zl])))"
    by (simp add: zs del: set_concat set_upt)
  have 3: "distinct (map fst a)" if a: "a \<in> set (inners h @ ms)" for a
  proof (cases "a \<in> set (inners h)")
    case True
    then show ?thesis using v by (simp add: valid_store_def list_all_iff)
  next
    case False
    then obtain e where "e \<in> set es" "a = inners h ! snd e"
      using a by (auto simp: ms_def)
    then show ?thesis using valid_inner[OF v] r by simp
  qed
  show ?thesis
    unfolding eq valid_store_def using 1 2 3 by (simp add: list_all_iff del: set_map set_append)
qed

text \<open>
  C9. \<^verbatim>\<open>h := g.Copy()\<close> is a new graph that holds, node for node and entry for entry, what
  \<open>g\<close> holds, and \<open>g\<close> itself is as before. Afterwards a write of an edge weight through
  either one, by the bare assignment or by \<^verbatim>\<open>AddEdge\<close>, leaves the other one exactly as
  it was: the two share no map.
\<close>

theorem Copy_independent:
  assumes "valid_store h" and "g < length (outers h)" and "Copy h g = (h', c)"
  shows "graph_of h' c = graph_of h g \<and> graph_of h' g = graph_of h g \<and> c \<noteq> g
       \<and> graph_of (st_set_weight h' g u v w) c = graph_of h' c
       \<and> graph_of (st_set_weight h' c u v w) g = graph_of h' g
       \<and> graph_of (st_Directed_AddEdge h' g u v w) c = graph_of h' c
       \<and> graph_of (st_Directed_AddEdge h' c u v w) g = graph_of h' g
       \<and> graph_of (st_Undirected_AddEdge h' g u v w) c = graph_of h' c
       \<and> graph_of (st_Undirected_AddEdge h' c u v w) g = graph_of h' g"
proof -
  have h': "h' = copied h (outers h ! g)" and c: "c = length (outers h)"
    using Copy_copied[OF assms(1,2)] assms(3) by simp_all
  have refs: "\<forall>e \<in> set (outers h ! g). snd e < length (inners h)"
    using valid_refs[OF assms(1,2)] by auto
  have v': "valid_store h'"
    unfolding h' using assms(1) valid_keys[OF assms(1,2)] refs by (rule copied_valid)
  have ne: "c \<noteq> g" "g \<noteq> c" using assms(2) c by simp_all
  have lg: "g < length (outers h')" and lc: "c < length (outers h')"
    using assms(2) by (simp_all add: h' c copied_length)
  have 1: "graph_of h' c = graph_of h g"
    unfolding h' c using assms(1,2) by (rule copied_graph_new)
  have 2: "graph_of h' g = graph_of h g"
    unfolding h' using assms(1,2) by (rule copied_graph_old)
  show ?thesis
    using 1 2 ne(1)
      st_set_weight_frame[OF v' ne(2) lg lc] st_set_weight_frame[OF v' ne(1) lc lg]
      st_Directed_AddEdge_frame[OF v' ne(2) lg lc] st_Directed_AddEdge_frame[OF v' ne(1) lc lg]
      st_Undirected_AddEdge_frame[OF v' ne(2) lg lc] st_Undirected_AddEdge_frame[OF v' ne(1) lc lg]
    by simp
qed

lemmas store_eval = Copy_def st_newGraphData_def copy_node_def copy_entry_def getOrCreate_def
  deref_def st_set_weight_def graph_of_def weight_def adjacency_def Let_def

theorem Copy_independent_witness:
  "valid_store \<lparr>outers = [[(Node (1::nat), 0), (Node 2, 1)]],
                 inners = [[(Node 2, Fin 1)], [(Node 1, Fin 1)]]\<rparr>
   \<and> Copy \<lparr>outers = [[(Node (1::nat), 0), (Node 2, 1)]],
            inners = [[(Node 2, Fin 1)], [(Node 1, Fin 1)]]\<rparr> 0
     = (\<lparr>outers = [[(Node 1, 0), (Node 2, 1)], [(Node 1, 2), (Node 2, 3)]],
         inners = [[(Node 2, Fin 1)], [(Node 1, Fin 1)], [(Node 2, Fin 1)], [(Node 1, Fin 1)]]\<rparr>, 1)
   \<and> graph_of \<lparr>outers = [[(Node (1::nat), 0), (Node 2, 1)], [(Node 1, 2), (Node 2, 3)]],
         inners = [[(Node 2, Fin 1)], [(Node 1, Fin 1)], [(Node 2, Fin 1)], [(Node 1, Fin 1)]]\<rparr> 1
     = [(Node 1, [(Node 2, Fin 1)]), (Node 2, [(Node 1, Fin 1)])]
   \<and> weight (graph_of (st_set_weight \<lparr>outers = [[(Node (1::nat), 0), (Node 2, 1)], [(Node 1, 2), (Node 2, 3)]],
         inners = [[(Node 2, Fin 1)], [(Node 1, Fin 1)], [(Node 2, Fin 1)], [(Node 1, Fin 1)]]\<rparr>
         0 (Node 1) (Node 2) (Fin 10)) 0) (Node 1) (Node 2) = Some (Fin 10)
   \<and> weight (graph_of (st_set_weight \<lparr>outers = [[(Node (1::nat), 0), (Node 2, 1)], [(Node 1, 2), (Node 2, 3)]],
         inners = [[(Node 2, Fin 1)], [(Node 1, Fin 1)], [(Node 2, Fin 1)], [(Node 1, Fin 1)]]\<rparr>
         0 (Node 1) (Node 2) (Fin 10)) 1) (Node 1) (Node 2) = Some (Fin 1)"
proof -
  let ?h = "\<lparr>outers = [[(Node (1::nat), 0), (Node 2, 1)]],
             inners = [[(Node 2, Fin 1)], [(Node 1, Fin 1)]]\<rparr>"
  let ?h' = "\<lparr>outers = [[(Node (1::nat), 0), (Node 2, 1)], [(Node 1, 2), (Node 2, 3)]],
         inners = [[(Node 2, Fin 1)], [(Node 1, Fin 1)], [(Node 2, Fin 1)], [(Node 1, Fin 1)]]\<rparr>"
  have v: "valid_store ?h"
    by (simp add: valid_store_def)
  have l: "0 < length (outers ?h)"
    by simp
  have c: "Copy ?h 0 = (?h', 1)"
    by (simp add: store_eval)
  show ?thesis
    using v c Copy_independent[OF v l c, of "Node 1" "Node 2" "Fin 10"]
    by (simp add: store_eval)
qed

subsection \<open>The store operations act on a graph as the operations on its value do\<close>

lemma map_of_pairs:
  "map_of (map (\<lambda>(n, r). (n, f r)) al) n = map_option f (map_of al n)"
  by (induction al) auto

lemma st_AddNode_refines:
  assumes v: "valid_store h" and g: "g < length (outers h)"
  shows "graph_of (st_AddNode h g n) g = AddNode (graph_of h g) n"
proof (cases "map_of (outers h ! g) n")
  case (Some r)
  then show ?thesis
    using g by (simp add: st_AddNode_def AddNode_def graph_of_def deref_nth map_of_pairs)
next
  case None
  have "deref (inners h @ [[]]) r = deref (inners h) r" if "(m, r) \<in> set (outers h ! g)" for m r
    using valid_refs[OF v g that] by (simp add: deref_append)
  then have "map (\<lambda>(n, r). (n, deref (inners h @ [[]]) r)) (outers h ! g)
           = map (\<lambda>(n, r). (n, deref (inners h) r)) (outers h ! g)"
    by auto
  then show ?thesis
    using None g
    by (simp add: st_AddNode_def AddNode_def graph_of_def deref_nth map_of_pairs)
qed

lemma map_entry_absent: "map_of al u = None \<Longrightarrow> AList.map_entry u f al = al"
  by (induction al) (auto split: if_splits)

lemma map_entry_pairs:
  assumes "distinct (map snd al)" "map_of al u = Some r"
  shows "map (\<lambda>(n, r'). (n, if r' = r then f (x r) else x r')) al
       = AList.map_entry u f (map (\<lambda>(n, r'). (n, x r')) al)"
  using assms
proof (induction al)
  case Nil
  then show ?case by simp
next
  case (Cons e al)
  obtain n r0 where e: "e = (n, r0)" by (cases e)
  show ?case
  proof (cases "n = u")
    case True
    then have r0: "r0 = r" using Cons.prems(2) by (simp add: e)
    have "r' \<noteq> r" if "(m, r') \<in> set al" for m r'
      using Cons.prems(1) that by (force simp: e r0)
    then have "map (\<lambda>(n, r'). (n, if r' = r then f (x r) else x r')) al
             = map (\<lambda>(n, r'). (n, x r')) al"
      by auto
    then show ?thesis using True by (simp add: e r0)
  next
    case False
    then have m: "map_of al u = Some r" using Cons.prems(2) by (simp add: e)
    then have "(u, r) \<in> set al" by (rule map_of_SomeD)
    then have "r0 \<noteq> r" using Cons.prems(1) by (force simp: e)
    then show ?thesis
      using Cons.IH[OF _ m] Cons.prems(1) False by (simp add: e)
  qed
qed

lemma st_set_weight_refines:
  assumes v: "valid_store h" and g: "g < length (outers h)"
  shows "graph_of (st_set_weight h g u x w) g = set_weight (graph_of h g) u x w"
proof (cases "map_of (outers h ! g) u")
  case None
  then have "map_of (graph_of h g) u = None"
    using g by (simp add: graph_of_def deref_nth map_of_pairs)
  then have "AList.map_entry u (AList.update x w) (graph_of h g) = graph_of h g"
    by (rule map_entry_absent)
  then show ?thesis
    using None g by (simp add: st_set_weight_def set_weight_def deref_nth)
next
  case (Some r)
  have rl: "r < length (inners h)"
    using valid_refs[OF v g map_of_SomeD[OF Some]] .
  have d: "deref ((inners h)[r := y]) r' = (if r' = r then y else deref (inners h) r')" for y r'
    using rl by (simp add: deref_update)
  show ?thesis
    using Some g map_entry_pairs[OF valid_own[OF v g] Some, of "AList.update x w" "deref (inners h)"]
    by (simp add: st_set_weight_def set_weight_def graph_of_def deref_nth d)
qed

lemma absent_graph_of:
  "g < length (outers h) \<Longrightarrow>
   (map_of (deref (outers h) g) n = None) = (map_of (graph_of h g) n = None)"
  by (simp add: graph_of_def deref_nth map_of_pairs)

lemma st_add_endpoints_refines:
  assumes v: "valid_store h" and g: "g < length (outers h)"
  shows "graph_of (st_add_endpoints h g u x) g = add_endpoints (graph_of h g) u x"
proof -
  let ?h1 = "if map_of (deref (outers h) g) u = None then st_AddNode h g u else h"
  have v1: "valid_store ?h1" using v by (simp add: st_AddNode_valid)
  have g1: "g < length (outers ?h1)" using g by (simp add: st_AddNode_length)
  have 1: "graph_of ?h1 g = (if map_of (graph_of h g) u = None then AddNode (graph_of h g) u
                             else graph_of h g)"
    using st_AddNode_refines[OF v g, of u] absent_graph_of[OF g, of u] by simp
  have 2: "graph_of (st_AddNode ?h1 g x) g = AddNode (graph_of ?h1 g) x"
    using v1 g1 by (rule st_AddNode_refines)
  show ?thesis
    unfolding st_add_endpoints_def add_endpoints_def Let_def
    using 1 2 absent_graph_of[OF g1, of x] by simp
qed

lemma st_Directed_AddEdge_refines:
  assumes "valid_store h" "g < length (outers h)"
  shows "graph_of (st_Directed_AddEdge h g u x w) g = Directed_AddEdge (graph_of h g) u x w"
proof -
  let ?h1 = "st_add_endpoints h g u x"
  have v1: "valid_store ?h1" using assms(1) by (rule st_add_endpoints_valid)
  have g1: "g < length (outers ?h1)" using assms(2) by (simp add: st_add_endpoints_length)
  have "graph_of (st_set_weight ?h1 g u x w) g = set_weight (graph_of ?h1 g) u x w"
    using v1 g1 by (rule st_set_weight_refines)
  also have "graph_of ?h1 g = add_endpoints (graph_of h g) u x"
    using assms by (rule st_add_endpoints_refines)
  finally show ?thesis
    by (simp add: st_Directed_AddEdge_def Directed_AddEdge_def)
qed

lemma st_Undirected_AddEdge_refines:
  assumes "valid_store h" "g < length (outers h)"
  shows "graph_of (st_Undirected_AddEdge h g u x w) g = Undirected_AddEdge (graph_of h g) u x w"
proof -
  let ?h1 = "st_add_endpoints h g u x"
  let ?h2 = "st_set_weight ?h1 g u x w"
  have v1: "valid_store ?h1" using assms(1) by (rule st_add_endpoints_valid)
  have g1: "g < length (outers ?h1)" using assms(2) by (simp add: st_add_endpoints_length)
  have v2: "valid_store ?h2" using v1 by (rule st_set_weight_valid)
  have g2: "g < length (outers ?h2)" using g1 by (simp add: st_set_weight_outers)
  have "graph_of (st_set_weight ?h2 g x u w) g = set_weight (graph_of ?h2 g) x u w"
    using v2 g2 by (rule st_set_weight_refines)
  also have "graph_of ?h2 g = set_weight (graph_of ?h1 g) u x w"
    using v1 g1 by (rule st_set_weight_refines)
  also have "graph_of ?h1 g = add_endpoints (graph_of h g) u x"
    using assms by (rule st_add_endpoints_refines)
  finally show ?thesis
    by (simp add: st_Undirected_AddEdge_def Undirected_AddEdge_def)
qed

end
